theory Spec2Isabelle
  imports Complex_Main
begin

section \<open>Batch Upsert Writer (lib/github/repository-service.ts)\<close>

subsection \<open>Records handed to the writer\<close>

text \<open>
  \<^verbatim>\<open>GithubRepositoryStats\<close> with the fields the writer reads. Optional fields
  (\<^verbatim>\<open>description?\<close>, \<^verbatim>\<open>topics?\<close>, ...) are options; \<^verbatim>\<open>owner.html_url\<close> and
  \<^verbatim>\<open>license?.name\<close> are flattened. Timestamps of the external API are the strings the
  API returns.
\<close>

record github_repository_stats =
  repo_id :: int
  name :: string
  full_name :: string
  description :: "string option"
  html_url :: string
  homepage :: "string option"
  language :: "string option"
  topics :: "string list option"
  stargazers_count :: int
  watchers_count :: int
  forks_count :: int
  fork :: bool
  owner_html_url :: string
  created_at :: string
  updated_at :: string
  pushed_at :: "string option"
  license_name :: "string option"
  languages_url :: string

record extended_repository_stats = github_repository_stats +
  ecosystem :: string
  category :: string

text \<open>The spread \<^verbatim>\<open>{ ...repo, ecosystem, category }\<close> of \<^verbatim>\<open>queueRepository\<close>.\<close>

definition extend_repo ::
  "github_repository_stats \<Rightarrow> string \<Rightarrow> string \<Rightarrow> extended_repository_stats" where
  "extend_repo repo eco cat =
     github_repository_stats.extend repo (extended_repository_stats.fields eco cat)"

subsection \<open>The store: the two tables the writer touches\<close>

text \<open>
  A row of table \<^verbatim>\<open>repositories\<close>: the nineteen columns of the \<^verbatim>\<open>INSERT\<close>, and the two
  bookkeeping timestamps the database fills in (\<^verbatim>\<open>created_in_db\<close> by its default,
  \<^verbatim>\<open>updated_in_db\<close> by the \<^verbatim>\<open>SET\<close> clause). Times are milliseconds.
\<close>

record db_row =
  col_id :: int
  col_name :: string
  col_full_name :: string
  col_description :: "string option"
  col_html_url :: string
  col_homepage :: "string option"
  col_language :: "string option"
  col_stargazers_count :: int
  col_watchers_count :: int
  col_forks_count :: int
  col_fork :: bool
  col_owner_html_url :: string
  col_created_at :: string
  col_updated_at :: string
  col_pushed_at :: "string option"
  col_license_name :: "string option"
  col_languages_url :: string
  col_ecosystem :: string
  col_category :: string
  col_created_in_db :: int
  col_updated_in_db :: int

text \<open>
  \<^verbatim>\<open>repositories\<close> is keyed by its primary key \<^verbatim>\<open>id\<close>; \<^verbatim>\<open>repository_topics\<close> holds
  the set of topics of each repository id.
\<close>

record tables =
  repositories :: "int \<rightharpoonup> db_row"
  repository_topics :: "int \<Rightarrow> string set"

text \<open>
  One client connection: the committed tables, and the working copy of an open
  transaction. \<^verbatim>\<open>BEGIN\<close> opens the copy, statements write to it, \<^verbatim>\<open>COMMIT\<close> installs
  it, \<^verbatim>\<open>ROLLBACK\<close> drops it. A statement outside a transaction writes to the committed
  tables at once.
\<close>

record database =
  committed :: tables
  txn :: "tables option"

definition db_begin :: "database \<Rightarrow> database" where
  "db_begin d = d\<lparr>txn := Some (committed d)\<rparr>"

definition db_commit :: "database \<Rightarrow> database" where
  "db_commit d = (case txn d of None \<Rightarrow> d | Some t \<Rightarrow> d\<lparr>committed := t, txn := None\<rparr>)"

definition db_rollback :: "database \<Rightarrow> database" where
  "db_rollback d = d\<lparr>txn := None\<rparr>"

definition db_write :: "(tables \<Rightarrow> tables) \<Rightarrow> database \<Rightarrow> database" where
  "db_write f d = (case txn d of None \<Rightarrow> d\<lparr>committed := f (committed d)\<rparr>
                   | Some t \<Rightarrow> d\<lparr>txn := Some (f t)\<rparr>)"

text \<open>The row a plain \<^verbatim>\<open>INSERT\<close> of one record creates at database time \<open>t\<close>.\<close>

definition insert_row :: "int \<Rightarrow> extended_repository_stats \<Rightarrow> db_row" where
  "insert_row t r =
     \<lparr>col_id = repo_id r, col_name = name r, col_full_name = full_name r,
      col_description = description r, col_html_url = html_url r,
      col_homepage = homepage r, col_language = language r,
      col_stargazers_count = stargazers_count r,
      col_watchers_count = watchers_count r, col_forks_count = forks_count r,
      col_fork = fork r, col_owner_html_url = owner_html_url r,
      col_created_at = created_at r, col_updated_at = updated_at r,
      col_pushed_at = pushed_at r, col_license_name = license_name r,
      col_languages_url = languages_url r, col_ecosystem = ecosystem r,
      col_category = category r, col_created_in_db = t, col_updated_in_db = t\<rparr>"

text \<open>
  \<^verbatim>\<open>ON CONFLICT (id) DO UPDATE SET\<close>: the twelve assignments of the statement, in its
  order; every other column keeps the value of the existing row.
\<close>

definition conflict_update :: "int \<Rightarrow> db_row \<Rightarrow> extended_repository_stats \<Rightarrow> db_row" where
  "conflict_update t old r =
     old\<lparr>col_name := name r,
         col_description := description r,
         col_html_url := html_url r,
         col_homepage := homepage r,
         col_language := language r,
         col_stargazers_count := stargazers_count r,
         col_watchers_count := watchers_count r,
         col_forks_count := forks_count r,
         col_updated_at := updated_at r,
         col_ecosystem := ecosystem r,
         col_category := category r,
         col_updated_in_db := t\<rparr>"

definition upsert_row :: "int \<Rightarrow> extended_repository_stats \<Rightarrow> tables \<Rightarrow> tables" where
  "upsert_row t r tb =
     tb\<lparr>repositories := (repositories tb)(repo_id r \<mapsto>
          (case repositories tb (repo_id r) of
             None \<Rightarrow> insert_row t r
           | Some old \<Rightarrow> conflict_update t old r))\<rparr>"

text \<open>The multi-row statement: the rows of \<^verbatim>\<open>currentBatch\<close> in order.\<close>

fun bulk_upsert :: "int \<Rightarrow> extended_repository_stats list \<Rightarrow> tables \<Rightarrow> tables" where
  "bulk_upsert t [] tb = tb"
| "bulk_upsert t (r # rs) tb = bulk_upsert t rs (upsert_row t r tb)"

text \<open>
  \<^verbatim>\<open>DELETE FROM repository_topics WHERE repository_id = $1\<close> and the \<^verbatim>\<open>INSERT\<close> of the
  record's topics.
\<close>

definition delete_topics :: "int \<Rightarrow> tables \<Rightarrow> tables" where
  "delete_topics i tb = tb\<lparr>repository_topics := (repository_topics tb)(i := {})\<rparr>"

definition insert_topics :: "int \<Rightarrow> string list \<Rightarrow> tables \<Rightarrow> tables" where
  "insert_topics i ts tb =
     tb\<lparr>repository_topics := (repository_topics tb)(i := repository_topics tb i \<union> set ts)\<rparr>"

subsection \<open>Errors\<close>

text \<open>
  The error classes of \<^verbatim>\<open>lib/utils/errors.ts\<close> with the constructor arguments the
  ingestion core passes (message, then status code or retry-after), and the two errors that
  come from outside: the HTTP error of the API client (its status, whether the message of
  the response mentions a rate limit, and its \<^verbatim>\<open>retry-after\<close> header), and an error of
  the database driver. \<open>PlainError\<close> is a bare \<^verbatim>\<open>Error\<close>.
\<close>

datatype error =
    GitHubError string int
  | DatabaseError string int
  | RateLimitError string "int option"
  | ValidationError string
  | PlainError string
  | HttpError int bool "int option"
  | PgError

subsection \<open>The writer\<close>

text \<open>
  What the writer did, in order: a \<^verbatim>\<open>setTimeout\<close> sleep with its delay, a committed
  transaction with the ids of its batch, a rolled back one, a failed \<^verbatim>\<open>pool.connect()\<close>.
\<close>

datatype event = Slept int | Committed "int list" | RolledBack "int list" | ConnectFailed

text \<open>
  The fields of \<^verbatim>\<open>RepositoryService\<close>, the database behind the pool, a clock
  (\<^verbatim>\<open>Date.now()\<close>, advanced by the sleeps), the events so far (oldest first) and the
  number of \<^verbatim>\<open>setImmediate\<close> callbacks scheduled and not yet run.
\<close>

record writer =
  batch :: "extended_repository_stats list"
  processedRepos :: "string set"
  processing :: bool
  lastProcessTime :: int
  db :: database
  clock :: int
  events :: "event list"
  immediates :: nat

definition BATCH_SIZE :: nat where "BATCH_SIZE = 50"
definition MIN_BATCH_INTERVAL :: int where "MIN_BATCH_INTERVAL = 5000"

text \<open>
  Where one run of \<^verbatim>\<open>processBatch\<close> fails, chosen by the environment: the connection, the
  \<^verbatim>\<open>rateLimiter.acquire\<close> of the batch, \<^verbatim>\<open>BEGIN\<close>, the bulk statement, the topics of the
  \<open>i\<close>-th record (its \<^verbatim>\<open>acquire\<close>, or its \<^verbatim>\<open>INSERT\<close> after the \<^verbatim>\<open>DELETE\<close> ran),
  \<^verbatim>\<open>COMMIT\<close>. The \<^verbatim>\<open>ROLLBACK\<close> statement itself and \<^verbatim>\<open>client.release()\<close> are taken to
  succeed. The callbacks of \<^verbatim>\<open>Promise.all\<close> run in batch order.
\<close>

datatype fault = NoFault | ConnectFault | AcquireFault | BeginFault | UpsertFault
  | TopicsAcquireFault nat | TopicsInsertFault nat | CommitFault

definition sleep :: "int \<Rightarrow> writer \<Rightarrow> writer" where
  "sleep d w = w\<lparr>clock := clock w + max 0 d, events := events w @ [Slept d]\<rparr>"

text \<open>
  The topics loop: a record with a non-empty topic list has its rows deleted and
  re-inserted. The result is the database and whether the loop got through.
\<close>

fun process_topics ::
  "fault \<Rightarrow> nat \<Rightarrow> extended_repository_stats list \<Rightarrow> database \<Rightarrow> database \<times> bool" where
  "process_topics fl i [] d = (d, True)"
| "process_topics fl i (r # rs) d =
     (case topics r of
        None \<Rightarrow> process_topics fl (Suc i) rs d
      | Some ts \<Rightarrow>
          if ts = [] then process_topics fl (Suc i) rs d
          else if fl = TopicsAcquireFault i then (d, False)
          else let d1 = db_write (delete_topics (repo_id r)) d in
            if fl = TopicsInsertFault i then (d1, False)
            else process_topics fl (Suc i) rs (db_write (insert_topics (repo_id r) ts) d1))"

text \<open>The body of the \<^verbatim>\<open>try\<close> block, up to the first statement that throws.\<close>

definition run_transaction ::
  "fault \<Rightarrow> int \<Rightarrow> extended_repository_stats list \<Rightarrow> database \<Rightarrow> database \<times> bool" where
  "run_transaction fl t cur d =
     (if fl = AcquireFault \<or> fl = BeginFault then (d, False)
      else let d1 = db_begin d in
        if fl = UpsertFault then (d1, False)
        else case process_topics fl 0 cur (db_write (bulk_upsert t cur) d1) of
            (d3, False) \<Rightarrow> (d3, False)
          | (d3, True) \<Rightarrow> if fl = CommitFault then (d3, False) else (db_commit d3, True))"

text \<open>
  \<^verbatim>\<open>Math.min(5000 * Math.pow(2, this.batch.length / this.BATCH_SIZE), 30000)\<close>, over the
  reals; \<^verbatim>\<open>setTimeout\<close> takes its integer part.
\<close>

definition backoffDelay :: "nat \<Rightarrow> real" where
  "backoffDelay n = min (5000 * 2 powr (real n / real BATCH_SIZE)) 30000"

text \<open>The \<^verbatim>\<open>finally\<close> block.\<close>

definition finally_block :: "writer \<Rightarrow> writer" where
  "finally_block w =
     (let w1 = w\<lparr>processing := False\<rparr>
      in if length (batch w1) \<ge> BATCH_SIZE then w1\<lparr>immediates := Suc (immediates w1)\<rparr> else w1)"

text \<open>
  The minimum interval between batches: \<^verbatim>\<open>processBatch\<close> sleeps until
  \<^verbatim>\<open>MIN_BATCH_INTERVAL\<close> has passed since the last committed batch.
\<close>

definition await_interval :: "writer \<Rightarrow> writer" where
  "await_interval w =
     (let timeSinceLastProcess = clock w - lastProcessTime w
      in if timeSinceLastProcess < MIN_BATCH_INTERVAL
         then sleep (MIN_BATCH_INTERVAL - timeSinceLastProcess) w else w)"

text \<open>
  \<^verbatim>\<open>processBatch\<close>. The result is the writer afterwards and the error the call throws, if
  any: only a failed \<^verbatim>\<open>pool.connect()\<close>, which is outside the \<^verbatim>\<open>try\<close>, escapes.
\<close>

definition processBatch :: "fault \<Rightarrow> writer \<Rightarrow> writer \<times> error option" where
  "processBatch fl w =
     (if processing w \<or> length (batch w) = 0 then (w, None)
      else
        let w1 = await_interval w;
            currentBatch = take BATCH_SIZE (batch w1);
            w2 = w1\<lparr>processing := True, batch := drop BATCH_SIZE (batch w1)\<rparr>
        in if fl = ConnectFault then (w2\<lparr>events := events w2 @ [ConnectFailed]\<rparr>, Some PgError)
           else case run_transaction fl (clock w2) currentBatch (db w2) of
               (d, True) \<Rightarrow>
                 (finally_block
                    (w2\<lparr>db := d,
                        processedRepos := processedRepos w2 \<union> set (map full_name currentBatch),
                        lastProcessTime := clock w2,
                        events := events w2 @ [Committed (map repo_id currentBatch)]\<rparr>), None)
             | (d, False) \<Rightarrow>
                 (let w3 = w2\<lparr>db := db_rollback d, batch := currentBatch @ batch w2,
                              events := events w2 @ [RolledBack (map repo_id currentBatch)]\<rparr>
                  in finally_block (sleep \<lfloor>backoffDelay (length (batch w3))\<rfloor> w3), None))"

text \<open>\<^verbatim>\<open>queueRepository\<close>; \<open>fl\<close> is the fault of the \<^verbatim>\<open>processBatch\<close> it may run.\<close>

definition queueRepository ::
  "github_repository_stats \<Rightarrow> string \<Rightarrow> string \<Rightarrow> fault \<Rightarrow> writer \<Rightarrow> writer \<times> error option" where
  "queueRepository repo eco cat fl w =
     (if full_name repo \<in> processedRepos w then (w, None)
      else let w1 = w\<lparr>batch := batch w @ [extend_repo repo eco cat]\<rparr>
        in if length (batch w1) \<ge> BATCH_SIZE then processBatch fl w1 else (w1, None))"



text \<open>A fresh service: the field initialisers of the class, and an empty database.\<close>

definition empty_tables :: tables where
  "empty_tables = \<lparr>repositories = Map.empty, repository_topics = (\<lambda>_. {})\<rparr>"

definition new_writer :: "int \<Rightarrow> writer" where
  "new_writer now =
     \<lparr>batch = [], processedRepos = {}, processing = False, lastProcessTime = 0,
      db = \<lparr>committed = empty_tables, txn = None\<rparr>, clock = now, events = [],
      immediates = 0\<rparr>"

subsection \<open>What a transaction that gets through writes\<close>


definition replace_topics :: "extended_repository_stats \<Rightarrow> tables \<Rightarrow> tables" where
  "replace_topics r tb =
     (case topics r of
        None \<Rightarrow> tb
      | Some ts \<Rightarrow> if ts = [] then tb
                  else insert_topics (repo_id r) ts (delete_topics (repo_id r) tb))"

fun replace_all_topics :: "extended_repository_stats list \<Rightarrow> tables \<Rightarrow> tables" where
  "replace_all_topics [] tb = tb"
| "replace_all_topics (r # rs) tb = replace_all_topics rs (replace_topics r tb)"


text \<open>The events that are a run of \<^verbatim>\<open>processBatch\<close> past its guard, that is, a flush.\<close>

fun is_flush :: "event \<Rightarrow> bool" where
  "is_flush (Slept d) = False"
| "is_flush _ = True"

definition flushes :: "writer \<Rightarrow> event list" where
  "flushes w = filter is_flush (events w)"

text \<open>A record for examples: id, full name and topics given, the other fields fixed.\<close>

definition sample_repo :: "int \<Rightarrow> string \<Rightarrow> string list option \<Rightarrow> github_repository_stats" where
  "sample_repo i fn ts =
     \<lparr>repo_id = i, name = ''repo'', full_name = fn, description = None,
      html_url = ''https://github.com/'' @ fn, homepage = None, language = None,
      topics = ts, stargazers_count = 0, watchers_count = 0, forks_count = 0,
      fork = False, owner_html_url = ''https://github.com/owner'',
      created_at = ''2020-01-01T00:00:00Z'', updated_at = ''2021-01-01T00:00:00Z'',
      pushed_at = None, license_name = None,
      languages_url = ''https://api.github.com/repos/'' @ fn @ ''/languages''\<rparr>"







section \<open>Ecosystem Source Reader (\<^verbatim>\<open>parseEcosystemFile\<close> in lib/github/parser.ts)\<close>












section \<open>Fetch client (\<^verbatim>\<open>fetchRepository\<close> and \<^verbatim>\<open>retryWithBackoff\<close>)\<close>

text \<open>\<^verbatim>\<open>error.status\<close>: only the HTTP error of the API client has this property.\<close>

fun status :: "error \<Rightarrow> int option" where
  "status (HttpError st rl ra) = Some st"
| "status _ = None"

definition RETRY_DELAY :: int where "RETRY_DELAY = 5000"
definition MAX_RETRIES :: nat where "MAX_RETRIES = 3"
definition CACHE_TTL :: int where "CACHE_TTL = 24 * 60 * 60 * 1000"

text \<open>
  What a run of the retry loop did: the result or the error thrown, the delays slept between
  attempts (oldest first) and the number of times the operation was called.
\<close>

record 'a retried =
  outcome :: "error + 'a"
  sleeps :: "int list"
  calls :: nat

text \<open>
  \<^verbatim>\<open>retryWithBackoff\<close>: the loop from attempt \<open>i\<close>. The operation is given by what its
  \<open>i\<close>-th call does: throw an error or return a value.
\<close>

function retry_from :: "(nat \<Rightarrow> error + 'a) \<Rightarrow> nat \<Rightarrow> nat \<Rightarrow> int list \<Rightarrow> 'a retried" where
  "retry_from operation retries i slept =
     (if i < retries then
        (case operation i of
           Inr v \<Rightarrow> \<lparr>outcome = Inr v, sleeps = slept, calls = Suc i\<rparr>
         | Inl e \<Rightarrow>
             if i = retries - 1 then \<lparr>outcome = Inl e, sleeps = slept, calls = Suc i\<rparr>
             else retry_from operation retries (Suc i) (slept @ [RETRY_DELAY * 2 ^ i]))
      else \<lparr>outcome = Inl (PlainError ''Retry failed''), sleeps = slept, calls = i\<rparr>)"
  by pat_completeness auto
termination
  by (relation "measure (\<lambda>(operation, retries, i, slept). retries - i)") auto

declare retry_from.simps [simp del]

definition retryWithBackoff :: "(nat \<Rightarrow> error + 'a) \<Rightarrow> nat \<Rightarrow> 'a retried" where
  "retryWithBackoff operation retries = retry_from operation retries 0 []"

text \<open>
  The world around one call of \<^verbatim>\<open>fetchRepository\<close>: whether \<^verbatim>\<open>GITHUB_TOKEN\<close> is set, the
  cache file of the repository if it exists and can be read (its age and its content),
  whether the first \<^verbatim>\<open>rateLimiter.acquire\<close> is granted or rejects, and what each call of the
  operation passed to \<^verbatim>\<open>retryWithBackoff\<close> does: the error one of its requests or its
  inner \<^verbatim>\<open>acquire\<close> throws, or the record it builds. Writing the cache file is taken to
  succeed.
\<close>

record fetch_env =
  token_set :: bool
  cache_file :: "(int \<times> github_repository_stats) option"
  acquire_result :: "error option"
  api :: "nat \<Rightarrow> error + github_repository_stats"

text \<open>
  The result of \<^verbatim>\<open>fetchRepository\<close>: the error thrown or the value returned (\<open>None\<close> is
  \<^verbatim>\<open>null\<close>), with the delays slept by the retry loop, the number of calls of the
  operation, and the record written to the cache.
\<close>

record fetched =
  returned :: "error + github_repository_stats option"
  backoff_sleeps :: "int list"
  api_calls :: nat
  cache_written :: "github_repository_stats option"

definition fetchRepository :: "fetch_env \<Rightarrow> string \<Rightarrow> string \<Rightarrow> fetched" where
  "fetchRepository env owner repo =
     (if \<not> token_set env then
        \<lparr>returned = Inl (GitHubError ''GITHUB_TOKEN environment variable is not set'' 401),
         backoff_sleeps = [], api_calls = 0, cache_written = None\<rparr>
      else case (case cache_file env of
                   Some (age, cached) \<Rightarrow> if age < CACHE_TTL then Some cached else None
                 | None \<Rightarrow> None) of
          Some cached \<Rightarrow>
            \<lparr>returned = Inr (Some cached), backoff_sleeps = [], api_calls = 0,
             cache_written = None\<rparr>
        | None \<Rightarrow>
            (case acquire_result env of
               Some e \<Rightarrow> \<lparr>returned = Inl e, backoff_sleeps = [], api_calls = 0,
                           cache_written = None\<rparr>
             | None \<Rightarrow>
                 let r = retryWithBackoff (api env) MAX_RETRIES in
                 (case outcome r of
                    Inr repoData \<Rightarrow>
                      \<lparr>returned = Inr (Some repoData), backoff_sleeps = sleeps r,
                       api_calls = calls r, cache_written = Some repoData\<rparr>
                  | Inl e \<Rightarrow>
                      \<lparr>returned =
                         (if status e = Some 404 then Inr None
                          else case e of
                              HttpError st rl ra \<Rightarrow>
                                if st = 403 \<and> rl
                                then Inl (RateLimitError
                                       (''Rate limit exceeded for '' @ owner @ ''/'' @ repo)
                                       (Some (case ra of Some n \<Rightarrow> n | None \<Rightarrow> 60)))
                                else Inl (GitHubError (''Error fetching '' @ owner @ ''/'' @ repo)
                                       (if st = 0 then 500 else st))
                            | _ \<Rightarrow> Inl (GitHubError (''Error fetching '' @ owner @ ''/'' @ repo) 500)),
                       backoff_sleeps = sleeps r, api_calls = calls r,
                       cache_written = None\<rparr>)))"

text \<open>The API answering \<^verbatim>\<open>404 Not Found\<close> to every request.\<close>

definition not_found_env :: fetch_env where
  "not_found_env =
     \<lparr>token_set = True, cache_file = None, acquire_result = None,
      api = (\<lambda>i. Inl (HttpError 404 False None))\<rparr>"

section \<open>Rate limiter (lib/github/rate-limiter.ts)\<close>

subsection \<open>State\<close>

text \<open>
  A \<^verbatim>\<open>QueueItem\<close>. Its promise is identified by \<open>ident\<close>, the number of \<^verbatim>\<open>acquire\<close>
  calls made before the one that created it, which also stands for the identity of the
  object (\<^verbatim>\<open>queueItem === item\<close>). \<open>timer_armed\<close> tells whether its \<^verbatim>\<open>timeout\<close> timer is
  still pending. Times are milliseconds.
\<close>

record queue_item =
  ident :: nat
  repoName :: string
  queuedAt :: int
  retryCount :: nat
  timer_armed :: bool

text \<open>\<^verbatim>\<open>RateLimiterState\<close>, the content of the state file.\<close>

record rate_limiter_state =
  tokens :: int
  resetTime :: int
  totalRequestsThisHour :: int
  lastRequestTime :: int
  lastStatusLog :: int
  lastError :: "(string \<times> int) option"
  failedPromises :: nat

text \<open>An admission: \<^verbatim>\<open>item.resolve()\<close> was called for the item, at a time.\<close>

record admission =
  adm_ident :: nat
  adm_retryCount :: nat
  adm_time :: int

text \<open>A rejection: \<^verbatim>\<open>item.reject(error)\<close> was called for the item, at a time.\<close>

record rejection =
  rej_ident :: nat
  rej_error :: error
  rej_time :: int

text \<open>A call from outside, made at a time: \<^verbatim>\<open>acquire(key)\<close> or \<^verbatim>\<open>updateLimits\<close>.\<close>

datatype stimulus = Acquire string | UpdateLimits int int

text \<open>
  The limiter and its surroundings: the fields \<^verbatim>\<open>queue\<close> and \<^verbatim>\<open>processing\<close> of the
  class, the state file, the clock, the calls from outside that are still to come (with
  their times), the admissions and rejections so far (newest first), and counters: of
  \<^verbatim>\<open>acquire\<close> calls, of \<^verbatim>\<open>saveState\<close> calls and of sleeps.
\<close>

record limiter =
  queue :: "queue_item list"
  rl_processing :: bool
  stateFile :: rate_limiter_state
  rl_clock :: int
  pending :: "(int \<times> stimulus) list"
  admitted :: "admission list"
  rejected :: "rejection list"
  next_ident :: nat
  saves :: nat
  naps :: nat

text \<open>
  What the limiter does not decide: which \<^verbatim>\<open>saveState\<close> calls fail (by their number), and
  by how much each \<^verbatim>\<open>setTimeout\<close> sleep overruns its delay (by its number).
\<close>

record rl_env =
  save_fails :: "nat \<Rightarrow> bool"
  lag :: "nat \<Rightarrow> nat"

definition RL_MAX_RETRIES :: nat where "RL_MAX_RETRIES = 3"
definition RL_RETRY_DELAY :: int where "RL_RETRY_DELAY = 5000"
definition REQUEST_TIMEOUT :: int where "REQUEST_TIMEOUT = 30000"
definition BASE_DELAY :: int where "BASE_DELAY = 1000"
definition MAX_DELAY :: int where "MAX_DELAY = 5000"
definition BURST_SIZE :: int where "BURST_SIZE = 10"
definition BURST_DELAY :: int where "BURST_DELAY = 10000"
definition HOURLY_LIMIT :: int where "HOURLY_LIMIT = 4500"

definition getDefaultState :: "int \<Rightarrow> rate_limiter_state" where
  "getDefaultState now =
     \<lparr>tokens = 5000, resetTime = now + 3600000, totalRequestsThisHour = 0,
      lastRequestTime = 0, lastStatusLog = 0, lastError = None, failedPromises = 0\<rparr>"

text \<open>A limiter just constructed at time \<open>now\<close>, with the calls that will be made to it.\<close>

definition new_limiter :: "int \<Rightarrow> (int \<times> stimulus) list \<Rightarrow> limiter" where
  "new_limiter now calls_to_come =
     \<lparr>queue = [], rl_processing = False, stateFile = getDefaultState now, rl_clock = now,
      pending = calls_to_come, admitted = [], rejected = [], next_ident = 0, saves = 0,
      naps = 0\<rparr>"

subsection \<open>The state file\<close>

text \<open>
  \<^verbatim>\<open>saveState\<close>: the file is replaced, or, when the write fails, restored from the backup
  and \<^verbatim>\<open>DatabaseError\<close> is thrown (the result \<open>False\<close>). \<^verbatim>\<open>loadState\<close> reads the file; a
  file that cannot be parsed is not modelled.
\<close>

definition saveState :: "rl_env \<Rightarrow> rate_limiter_state \<Rightarrow> limiter \<Rightarrow> limiter \<times> bool" where
  "saveState env st s =
     (if save_fails env (saves s) then (s\<lparr>saves := Suc (saves s)\<rparr>, False)
      else (s\<lparr>stateFile := st, saves := Suc (saves s)\<rparr>, True))"

definition save_error :: error where
  "save_error = DatabaseError ''Failed to save rate limiter state'' 500"

definition updateFailedPromises :: "rl_env \<Rightarrow> limiter \<Rightarrow> limiter \<times> bool" where
  "updateFailedPromises env s =
     saveState env ((stateFile s)\<lparr>failedPromises := Suc (failedPromises (stateFile s))\<rparr>) s"

subsection \<open>Timeouts\<close>

definition timeout_error :: error where
  "timeout_error = RateLimitError ''Request timed out'' (Some 408)"

text \<open>\<^verbatim>\<open>this.queue.splice(index, 1)\<close> at the first index holding the item.\<close>

fun splice_out :: "nat \<Rightarrow> queue_item list \<Rightarrow> queue_item list" where
  "splice_out i [] = []"
| "splice_out i (x # xs) = (if ident x = i then xs else x # splice_out i xs)"

text \<open>
  \<^verbatim>\<open>handleTimeout\<close>, run by the timer of an item at time \<open>t\<close>. Its
  \<^verbatim>\<open>updateFailedPromises()\<close> is not awaited, so a failure there is lost.
\<close>

definition handleTimeout :: "rl_env \<Rightarrow> queue_item \<Rightarrow> int \<Rightarrow> limiter \<Rightarrow> limiter" where
  "handleTimeout env item t s =
     (if ident item \<in> ident ` set (queue s) then
        fst (updateFailedPromises env
          (s\<lparr>queue := splice_out (ident item) (queue s),
             rejected := \<lparr>rej_ident = ident item, rej_error = timeout_error, rej_time = t\<rparr>
                         # rejected s\<rparr>))
      else s)"

text \<open>
  The timers that are due by time \<open>T\<close>: those of the queued items whose timer is pending and
  whose \<^verbatim>\<open>REQUEST_TIMEOUT\<close> has passed, each firing at its own deadline, in queue order.
\<close>

definition due :: "int \<Rightarrow> limiter \<Rightarrow> queue_item list" where
  "due T s = filter (\<lambda>it. timer_armed it \<and> queuedAt it + REQUEST_TIMEOUT \<le> T) (queue s)"

fun fire_all :: "rl_env \<Rightarrow> queue_item list \<Rightarrow> limiter \<Rightarrow> limiter" where
  "fire_all env [] s = s"
| "fire_all env (it # its) s =
     fire_all env its (handleTimeout env it (queuedAt it + REQUEST_TIMEOUT) s)"

definition fire_timers :: "rl_env \<Rightarrow> int \<Rightarrow> limiter \<Rightarrow> limiter" where
  "fire_timers env T s = fire_all env (due T s) s"

subsection \<open>Calls from outside while the drain loop is suspended\<close>

text \<open>
  The part of \<^verbatim>\<open>acquire\<close> before the test of \<^verbatim>\<open>processing\<close>: the item is created with its
  timer and pushed.
\<close>

definition enqueue :: "string \<Rightarrow> limiter \<Rightarrow> limiter" where
  "enqueue key s =
     s\<lparr>queue := queue s @ [\<lparr>ident = next_ident s, repoName = key, queuedAt = rl_clock s,
                              retryCount = 0, timer_armed = True\<rparr>],
       next_ident := Suc (next_ident s)\<rparr>"

text \<open>
  The part of \<^verbatim>\<open>updateLimits\<close> before the test of \<^verbatim>\<open>processing\<close>; its \<^verbatim>\<open>saveState\<close> is
  not awaited.
\<close>

definition write_limits :: "rl_env \<Rightarrow> int \<Rightarrow> int \<Rightarrow> limiter \<Rightarrow> limiter" where
  "write_limits env remaining reset s =
     (let st = (stateFile s)\<lparr>tokens := remaining, resetTime := reset * 1000\<rparr>;
          shouldLog = (rl_clock s - lastStatusLog st > 30000 \<or> remaining < 1000);
          st1 = (if shouldLog then st\<lparr>lastStatusLog := rl_clock s\<rparr> else st)
      in fst (saveState env st1 s))"

text \<open>
  A call arriving while \<^verbatim>\<open>processQueue\<close> is suspended in a sleep: \<^verbatim>\<open>processing\<close> is set,
  so neither \<^verbatim>\<open>acquire\<close> nor \<^verbatim>\<open>updateLimits\<close> starts another loop.
\<close>

fun arrive :: "rl_env \<Rightarrow> stimulus \<Rightarrow> limiter \<Rightarrow> limiter" where
  "arrive env (Acquire key) s = enqueue key s"
| "arrive env (UpdateLimits remaining reset) s = write_limits env remaining reset s"

text \<open>
  Time passing up to \<open>T\<close> while the loop is suspended: the calls that come by then arrive in
  order, each after the timers due before it have fired; then the timers due by \<open>T\<close> fire.
\<close>

fun deliver :: "rl_env \<Rightarrow> int \<Rightarrow> (int \<times> stimulus) list \<Rightarrow> limiter \<Rightarrow> limiter" where
  "deliver env T [] s = (fire_timers env T s)\<lparr>rl_clock := max (rl_clock s) T, pending := []\<rparr>"
| "deliver env T ((tm, call) # rest) s =
     (if tm \<le> T then
        deliver env T rest
          (arrive env call ((fire_timers env tm s)\<lparr>rl_clock := max (rl_clock s) tm\<rparr>))
      else (fire_timers env T s)\<lparr>rl_clock := max (rl_clock s) T,
                                  pending := (tm, call) # rest\<rparr>)"

text \<open>\<^verbatim>\<open>await new Promise((resolve) => setTimeout(resolve, d))\<close>.\<close>

definition nap :: "rl_env \<Rightarrow> int \<Rightarrow> limiter \<Rightarrow> limiter" where
  "nap env d s =
     deliver env (rl_clock s + max 0 d + int (lag env (naps s))) (pending s)
       (s\<lparr>naps := Suc (naps s)\<rparr>)"

subsection \<open>The drain loop\<close>

text \<open>\<^verbatim>\<open>calculateDelay\<close>; the thresholds 0.8, 0.9 and 0.95 of 4500 are 3600, 4050 and 4275.\<close>

definition calculateDelay :: "limiter \<Rightarrow> int" where
  "calculateDelay s =
     (let st = stateFile s;
          timeSinceLastRequest = rl_clock s - lastRequestTime st;
          d0 = BASE_DELAY;
          d1 = (if totalRequestsThisHour st * 10 > HOURLY_LIMIT * 8 then d0 * 3 div 2 else d0);
          d2 = (if totalRequestsThisHour st * 10 > HOURLY_LIMIT * 9 then d1 * 2 else d1);
          d3 = (if totalRequestsThisHour st * 100 > HOURLY_LIMIT * 95 then MAX_DELAY else d2)
      in max d3 (BASE_DELAY - timeSinceLastRequest))"

text \<open>
  One pass of the \<^verbatim>\<open>for\<close> loop, with the local variable \<^verbatim>\<open>state\<close>. The result also tells
  whether the pass threw out of the inner \<^verbatim>\<open>try\<close>/\<^verbatim>\<open>catch\<close> (an error thrown in the
  \<^verbatim>\<open>catch\<close> block).
\<close>

definition process_item ::
  "rl_env \<Rightarrow> rate_limiter_state \<Rightarrow> limiter \<Rightarrow> rate_limiter_state \<times> limiter \<times> error option" where
  "process_item env state s =
     (case queue s of
        [] \<Rightarrow> (state, s, None)
      | item # rest \<Rightarrow>
          let state1 = state\<lparr>totalRequestsThisHour := totalRequestsThisHour state + 1,
                            lastRequestTime := rl_clock s\<rparr>
          in case saveState env state1 (s\<lparr>queue := rest\<rparr>) of
              (s1, True) \<Rightarrow>
                let s2 = s1\<lparr>admitted := \<lparr>adm_ident = ident item,
                                           adm_retryCount = retryCount item,
                                           adm_time = rl_clock s1\<rparr> # admitted s1\<rparr>
                in (state1, nap env (calculateDelay s2) s2, None)
            | (s1, False) \<Rightarrow>
                if retryCount item < RL_MAX_RETRIES then
                  let s2 = s1\<lparr>queue := queue s1 @ [item\<lparr>retryCount := retryCount item + 1,
                                                          timer_armed := False\<rparr>]\<rparr>;
                      state2 = state1\<lparr>lastError :=
                                  Some (''Failed to save rate limiter state'', rl_clock s2)\<rparr>
                  in case saveState env state2 s2 of
                      (s3, True) \<Rightarrow> (state2, nap env RL_RETRY_DELAY s3, None)
                    | (s3, False) \<Rightarrow> (state2, s3, Some save_error)
                else
                  let s2 = s1\<lparr>rejected := \<lparr>rej_ident = ident item, rej_error = save_error,
                                             rej_time = rl_clock s1\<rparr> # rejected s1\<rparr>
                  in case updateFailedPromises env s2 of
                      (s3, True) \<Rightarrow> (state1, s3, None)
                    | (s3, False) \<Rightarrow> (state1, s3, Some save_error))"

text \<open>The \<^verbatim>\<open>for\<close> loop over a burst.\<close>

fun burst_loop ::
  "rl_env \<Rightarrow> nat \<Rightarrow> rate_limiter_state \<Rightarrow> limiter \<Rightarrow> limiter \<times> error option" where
  "burst_loop env 0 state s = (s, None)"
| "burst_loop env (Suc n) state s =
     (case process_item env state s of
        (state1, s1, Some e) \<Rightarrow> (s1, Some e)
      | (state1, s1, None) \<Rightarrow> burst_loop env n state1 s1)"

text \<open>
  How the \<^verbatim>\<open>while\<close> loop ended: the queue is empty, an error was thrown to the outer
  \<^verbatim>\<open>catch\<close>, or the loop is still running when the observation ends.
\<close>

datatype loop_end = Drained | Thrown error | Running

text \<open>
  \<^verbatim>\<open>Math.min(BURST_SIZE, queue.length, Math.ceil((tokens / 100) * BURST_SIZE))\<close>.
\<close>

definition currentBurst :: "limiter \<Rightarrow> int" where
  "currentBurst s =
     min BURST_SIZE (min (int (length (queue s))) ((tokens (stateFile s) + 9) div 10))"

text \<open>\<^verbatim>\<open>Math.min(BURST_DELAY * (queue.length / 100), BURST_DELAY * 2)\<close>.\<close>

definition burstDelay :: "limiter \<Rightarrow> int" where
  "burstDelay s = min (BURST_DELAY * int (length (queue s)) div 100) (BURST_DELAY * 2)"

text \<open>
  The \<^verbatim>\<open>while\<close> loop. It may run for ever (with no tokens it sleeps and tries again), so it
  is observed for a bounded number of rounds; \<open>Running\<close> is the state of a loop that has not
  ended by then.
\<close>

fun drain :: "nat \<Rightarrow> rl_env \<Rightarrow> limiter \<Rightarrow> limiter \<times> loop_end" where
  "drain 0 env s = (s, Running)"
| "drain (Suc k) env s =
     (if queue s = [] then (s, Drained)
      else if currentBurst s = 0 then drain k env (nap env MAX_DELAY s)
      else case burst_loop env (nat (currentBurst s)) (stateFile s) s of
          (s1, Some e) \<Rightarrow> (s1, Thrown e)
        | (s1, None) \<Rightarrow>
            drain k env (if queue s1 \<noteq> [] then nap env (burstDelay s1) s1 else s1))"

text \<open>
  The outer \<^verbatim>\<open>catch\<close>: the error is recorded and every queued item rejected with it. A
  failing \<^verbatim>\<open>saveState\<close> here throws out of \<^verbatim>\<open>processQueue\<close> and leaves the rest queued.
\<close>

fun reject_queue :: "rl_env \<Rightarrow> error \<Rightarrow> queue_item list \<Rightarrow> limiter \<Rightarrow> limiter" where
  "reject_queue env e [] s = s\<lparr>queue := []\<rparr>"
| "reject_queue env e (item # rest) s =
     (case updateFailedPromises env
             (s\<lparr>queue := rest,
                rejected := \<lparr>rej_ident = ident item, rej_error = e, rej_time = rl_clock s\<rparr>
                            # rejected s\<rparr>) of
        (s1, True) \<Rightarrow> reject_queue env e rest s1
      | (s1, False) \<Rightarrow> s1)"

definition emergency :: "rl_env \<Rightarrow> error \<Rightarrow> limiter \<Rightarrow> limiter" where
  "emergency env e s =
     (case saveState env ((stateFile s)\<lparr>lastError :=
               Some (''Failed to save rate limiter state'', rl_clock s)\<rparr>) s of
        (s1, True) \<Rightarrow> reject_queue env e (queue s1) s1
      | (s1, False) \<Rightarrow> s1)"

text \<open>\<^verbatim>\<open>processQueue\<close>, observed for \<open>k\<close> rounds of its loop.\<close>

definition processQueue :: "nat \<Rightarrow> rl_env \<Rightarrow> limiter \<Rightarrow> limiter" where
  "processQueue k env s =
     (if rl_processing s then s
      else case drain k env (s\<lparr>rl_processing := True\<rparr>) of
          (s1, Drained) \<Rightarrow> s1\<lparr>rl_processing := False\<rparr>
        | (s1, Thrown e) \<Rightarrow> (emergency env e s1)\<lparr>rl_processing := False\<rparr>
        | (s1, Running) \<Rightarrow> s1)"

text \<open>\<^verbatim>\<open>acquire\<close> and \<^verbatim>\<open>updateLimits\<close>, called from outside.\<close>

definition acquire :: "nat \<Rightarrow> rl_env \<Rightarrow> string \<Rightarrow> limiter \<Rightarrow> limiter" where
  "acquire k env key s =
     (let s1 = enqueue key s in if \<not> rl_processing s1 then processQueue k env s1 else s1)"

definition updateLimits :: "nat \<Rightarrow> rl_env \<Rightarrow> int \<Rightarrow> int \<Rightarrow> limiter \<Rightarrow> limiter" where
  "updateLimits k env remaining reset s =
     (let s1 = write_limits env remaining reset s
      in if remaining > 0 \<and> \<not> rl_processing s1 then processQueue k env s1 else s1)"

text \<open>
  The limiter over time: the calls still to come are made one after the other, each at its
  time and after the timers due before it; a call that starts the drain loop runs it, and
  the loop takes the calls that come while it sleeps. \<open>n\<close> bounds the number of calls made
  from here, \<open>k\<close> the rounds of each drain loop.
\<close>

fun run :: "nat \<Rightarrow> nat \<Rightarrow> rl_env \<Rightarrow> limiter \<Rightarrow> limiter" where
  "run 0 k env s = s"
| "run (Suc n) k env s =
     (case pending s of
        [] \<Rightarrow> s
      | (tm, call) # rest \<Rightarrow>
          let s1 = (fire_timers env tm s)\<lparr>rl_clock := max (rl_clock s) tm, pending := rest\<rparr>
          in run n k env
               (case call of
                  Acquire key \<Rightarrow> acquire k env key s1
                | UpdateLimits remaining reset \<Rightarrow> updateLimits k env remaining reset s1))"

text \<open>An environment in which no write fails and no timer is late, for examples.\<close>

definition calm :: rl_env where
  "calm = \<lparr>save_fails = (\<lambda>_. False), lag = (\<lambda>_. 0)\<rparr>"

subsection \<open>Invariants of the limiter\<close>

text \<open>
  \<open>spaced\<close>: successive admissions are at least \<^verbatim>\<open>BASE_DELAY\<close> apart, and the last one is
  at least \<^verbatim>\<open>BASE_DELAY\<close> old. \<open>quiet s s'\<close>: from \<open>s\<close> to \<open>s'\<close> nothing was admitted and the
  clock did not go back.
\<close>

definition spaced :: "limiter \<Rightarrow> bool" where
  "spaced s =
     (sorted_wrt (\<lambda>a b. adm_time b + BASE_DELAY \<le> adm_time a) (admitted s)
      \<and> (\<forall>a \<in> set (admitted s). adm_time a + BASE_DELAY \<le> rl_clock s))"

definition quiet :: "limiter \<Rightarrow> limiter \<Rightarrow> bool" where
  "quiet s s' = (admitted s' = admitted s \<and> rl_clock s \<le> rl_clock s')"

text \<open>The admissions inside the window of one hour that starts at \<open>w\<close>.\<close>

definition admissions_in_hour :: "int \<Rightarrow> limiter \<Rightarrow> admission list" where
  "admissions_in_hour w s =
     filter (\<lambda>a. w \<le> adm_time a \<and> adm_time a < w + 3600000) (admitted s)"

text \<open>
  \<open>idents_ok\<close>: the queued items are different requests, and every request seen so far was
  created by an earlier \<^verbatim>\<open>acquire\<close>. \<open>settled\<close>: a queued request has not been admitted,
  and a request rejected by its timeout is neither queued nor admitted. \<open>fifo\<close>: in the
  queue, every item ahead of a never-retried item is older than it; a never-retried queued
  item is younger than every admitted one; and a request admitted without a retry is younger
  than all those admitted before it.
\<close>

definition idents_ok :: "limiter \<Rightarrow> bool" where
  "idents_ok s =
     (distinct (map ident (queue s))
      \<and> (\<forall>it \<in> set (queue s). ident it < next_ident s)
      \<and> (\<forall>a \<in> set (admitted s). adm_ident a < next_ident s)
      \<and> (\<forall>r \<in> set (rejected s). rej_ident r < next_ident s))"

definition settled :: "limiter \<Rightarrow> bool" where
  "settled s =
     ((\<forall>it \<in> set (queue s). ident it \<notin> adm_ident ` set (admitted s))
      \<and> (\<forall>r \<in> set (rejected s). rej_error r = timeout_error \<longrightarrow>
            rej_ident r \<notin> ident ` set (queue s)
            \<and> rej_ident r \<notin> adm_ident ` set (admitted s)))"

definition fifo :: "limiter \<Rightarrow> bool" where
  "fifo s =
     (sorted_wrt (\<lambda>a b. retryCount b = 0 \<longrightarrow> ident a < ident b) (queue s)
      \<and> (\<forall>f \<in> set (queue s). retryCount f = 0 \<longrightarrow>
            (\<forall>y \<in> set (admitted s). adm_ident y < ident f))
      \<and> sorted_wrt (\<lambda>x y. adm_retryCount x = 0 \<longrightarrow> adm_ident y < adm_ident x) (admitted s))"

definition wf_limiter :: "limiter \<Rightarrow> bool" where
  "wf_limiter s = (idents_ok s \<and> settled s \<and> fifo s)"

text \<open>\<open>same_core s s'\<close>: the two states have the same queue, logs and request counter.\<close>

definition same_core :: "limiter \<Rightarrow> limiter \<Rightarrow> bool" where
  "same_core s s' =
     (queue s' = queue s \<and> admitted s' = admitted s \<and> rejected s' = rejected s
      \<and> next_ident s' = next_ident s)"

text \<open>
  Two runs for examples. In \<open>retry_run\<close> three requests arrive at 0, 10 and 20 ms and the
  second \<^verbatim>\<open>saveState\<close> of the drain loop fails. In \<open>starved_run\<close> two requests arrive at 0
  and 10 ms, the same write fails, the API then reports no remaining budget at 2 s and a
  budget of 100 at 40 s.
\<close>

definition one_failed_save :: rl_env where
  "one_failed_save = \<lparr>save_fails = (\<lambda>k. k = 1), lag = (\<lambda>_. 0)\<rparr>"

definition retry_run :: limiter where
  "retry_run = run 10 20 one_failed_save
     (new_limiter 0 [(0, Acquire ''a''), (10, Acquire ''b''), (20, Acquire ''c'')])"

definition starved_run :: limiter where
  "starved_run = run 10 20 one_failed_save
     (new_limiter 0 [(0, Acquire ''a''), (10, Acquire ''b''), (2000, UpdateLimits 0 5000),
        (40000, UpdateLimits 100 5000)])"

section \<open>Properties of the Batch Upsert Writer\<close>

lemma extend_repo_sel [simp]:
  "repo_id (extend_repo r e c) = repo_id r"
  "name (extend_repo r e c) = name r"
  "full_name (extend_repo r e c) = full_name r"
  "description (extend_repo r e c) = description r"
  "html_url (extend_repo r e c) = html_url r"
  "homepage (extend_repo r e c) = homepage r"
  "language (extend_repo r e c) = language r"
  "topics (extend_repo r e c) = topics r"
  "stargazers_count (extend_repo r e c) = stargazers_count r"
  "watchers_count (extend_repo r e c) = watchers_count r"
  "forks_count (extend_repo r e c) = forks_count r"
  "fork (extend_repo r e c) = fork r"
  "owner_html_url (extend_repo r e c) = owner_html_url r"
  "created_at (extend_repo r e c) = created_at r"
  "updated_at (extend_repo r e c) = updated_at r"
  "pushed_at (extend_repo r e c) = pushed_at r"
  "license_name (extend_repo r e c) = license_name r"
  "languages_url (extend_repo r e c) = languages_url r"
  "ecosystem (extend_repo r e c) = e"
  "category (extend_repo r e c) = c"
  by (simp_all add: extend_repo_def github_repository_stats.defs
      extended_repository_stats.defs)


subsection \<open>The transaction\<close>




lemma await_interval_clock: "clock w \<le> clock (await_interval w)"
  by (simp add: await_interval_def sleep_def Let_def)


lemma processBatch_guard:
  "processing w \<or> batch w = [] \<Longrightarrow> processBatch fl w = (w, None)"
  by (auto simp add: processBatch_def)

subsection \<open>Enqueueing\<close>

lemma queueRepository_below:
  assumes "full_name r \<notin> processedRepos w" and "Suc (length (batch w)) < BATCH_SIZE"
  shows "queueRepository r eco cat fl w = (w\<lparr>batch := batch w @ [extend_repo r eco cat]\<rparr>, None)"
  using assms by (simp add: queueRepository_def Let_def)



subsection \<open>The tables after the statements of a batch\<close>

lemma replace_topics_repositories [simp]:
  "repositories (replace_topics r tb) = repositories tb"
  by (simp add: replace_topics_def insert_topics_def delete_topics_def split: option.splits)

lemma replace_all_topics_repositories [simp]:
  "repositories (replace_all_topics rs tb) = repositories tb"
  by (induction rs arbitrary: tb) simp_all

lemma upsert_row_topics [simp]:
  "repository_topics (upsert_row t r tb) = repository_topics tb"
  by (simp add: upsert_row_def)

lemma bulk_upsert_topics [simp]:
  "repository_topics (bulk_upsert t rs tb) = repository_topics tb"
  by (induction rs arbitrary: tb) simp_all






lemma bulk_upsert_dom:
  "dom (repositories (bulk_upsert t rs tb)) = dom (repositories tb) \<union> repo_id ` set rs"
  by (induction rs arbitrary: tb) (auto simp add: upsert_row_def)




subsection \<open>Enqueueing fifty-one records\<close>

lemma queueRepository_processed:
  "processedRepos (fst (queueRepository repo eco cat fl w)) = processedRepos w \<or>
   (\<exists>es ids. events (fst (queueRepository repo eco cat fl w)) = events w @ es @ [Committed ids])"
  apply (simp add: queueRepository_def Let_def processBatch_def finally_block_def sleep_def split: prod.splits bool.splits)
  apply (auto simp add: await_interval_def Let_def sleep_def)
  done

lemma new_writer_fields [simp]:
  "batch (new_writer now) = []"
  "processedRepos (new_writer now) = {}"
  "processing (new_writer now) = False"
  "lastProcessTime (new_writer now) = 0"
  "db (new_writer now) = \<lparr>committed = empty_tables, txn = None\<rparr>"
  "clock (new_writer now) = now"
  "events (new_writer now) = []"
  "immediates (new_writer now) = 0"
  "flushes (new_writer now) = []"
  by (simp_all add: new_writer_def flushes_def)

lemma flushes_batch_update [simp]: "flushes (w\<lparr>batch := b\<rparr>) = flushes w"
  by (simp add: flushes_def)








subsection \<open>Enqueueing the same record twice\<close>

text \<open>
  Claim C10. \<^verbatim>\<open>queueRepository\<close> does not add to \<^verbatim>\<open>processedRepos\<close> by itself: after a
  call the set is unchanged unless the \<^verbatim>\<open>processBatch\<close> run by that call committed a
  transaction. So for a record whose full name is not in \<^verbatim>\<open>processedRepos\<close>, two calls
  with the batch staying below the size threshold run no flush, leave \<^verbatim>\<open>processedRepos\<close>
  as it was and append two entries for the record to the pending batch.
\<close>

theorem C10_no_dedup_at_enqueue:
  assumes "full_name repo \<notin> processedRepos w"
    and "length (batch w) + 2 < BATCH_SIZE"
  shows "(\<forall>r e c fl v. processedRepos (fst (queueRepository r e c fl v)) = processedRepos v
            \<or> (\<exists>es ids. events (fst (queueRepository r e c fl v))
                           = events v @ es @ [Committed ids]))
       \<and> processedRepos (fst (queueRepository repo eco cat fl1 w)) = processedRepos w
       \<and> fst (queueRepository repo eco cat fl2 (fst (queueRepository repo eco cat fl1 w)))
            = w\<lparr>batch := batch w @ [extend_repo repo eco cat, extend_repo repo eco cat]\<rparr>"
proof -
  let ?w1 = "w\<lparr>batch := batch w @ [extend_repo repo eco cat]\<rparr>"
  have 1: "queueRepository repo eco cat fl1 w = (?w1, None)"
    using assms by (intro queueRepository_below) auto
  have 2: "queueRepository repo eco cat fl2 ?w1
             = (?w1\<lparr>batch := batch ?w1 @ [extend_repo repo eco cat]\<rparr>, None)"
    using assms by (intro queueRepository_below) auto
  show ?thesis using queueRepository_processed by (simp add: 1 2)
qed

theorem C10_no_dedup_at_enqueue_witness:
  "full_name (sample_repo 7 ''foo/bar'' None) \<notin> processedRepos (new_writer 0)
   \<and> length (batch (new_writer 0)) + 2 < BATCH_SIZE
   \<and> batch (fst (queueRepository (sample_repo 7 ''foo/bar'' None) ''solana'' ''defi'' NoFault
        (fst (queueRepository (sample_repo 7 ''foo/bar'' None) ''solana'' ''defi'' NoFault
           (new_writer 0)))))
      = [extend_repo (sample_repo 7 ''foo/bar'' None) ''solana'' ''defi'',
         extend_repo (sample_repo 7 ''foo/bar'' None) ''solana'' ''defi'']
   \<and> processedRepos (fst (queueRepository (sample_repo 7 ''foo/bar'' None) ''solana'' ''defi''
        NoFault (fst (queueRepository (sample_repo 7 ''foo/bar'' None) ''solana'' ''defi''
           NoFault (new_writer 0))))) = {}"
proof -
  have h1: "full_name (sample_repo 7 ''foo/bar'' None) \<notin> processedRepos (new_writer 0)"
    by simp
  have h2: "length (batch (new_writer 0)) + 2 < BATCH_SIZE"
    by (simp add: BATCH_SIZE_def)
  show ?thesis
    using C10_no_dedup_at_enqueue [OF h1 h2, of "''solana''" "''defi''" NoFault NoFault] h1 h2
    by simp
qed

subsection \<open>A failing transaction\<close>










lemma backoffDelay_exp:
  "backoffDelay (k * BATCH_SIZE) = min (5000 * 2 ^ k) 30000"
  by (simp add: backoffDelay_def BATCH_SIZE_def powr_realpow)






subsection \<open>What \<^verbatim>\<open>flush\<close> guarantees\<close>







subsection \<open>Writing the same id in two successive flushes\<close>










section \<open>Properties of the Ecosystem Source Reader\<close>
















section \<open>Properties of the fetch client\<close>

lemma retry_from_unfold:
  "retry_from operation retries i slept =
     (if i < retries then
        (case operation i of
           Inr v \<Rightarrow> \<lparr>outcome = Inr v, sleeps = slept, calls = Suc i\<rparr>
         | Inl e \<Rightarrow>
             if i = retries - 1 then \<lparr>outcome = Inl e, sleeps = slept, calls = Suc i\<rparr>
             else retry_from operation retries (Suc i) (slept @ [RETRY_DELAY * 2 ^ i]))
      else \<lparr>outcome = Inl (PlainError ''Retry failed''), sleeps = slept, calls = i\<rparr>)"
  by (rule retry_from.simps)

text \<open>
  When every call of the operation throws, the loop calls it \<open>retries\<close> times and sleeps
  before each further attempt, whatever the error is; it has no case for a status that is
  not to be retried.
\<close>

lemma retry_from_all_fail:
  assumes "\<forall>j. operation j = Inl (err j)" and "i < retries"
  shows "outcome (retry_from operation retries i slept) = Inl (err (retries - 1))
       \<and> calls (retry_from operation retries i slept) = retries
       \<and> sleeps (retry_from operation retries i slept)
            = slept @ map (\<lambda>j. RETRY_DELAY * 2 ^ j) [i..<retries - 1]"
  using assms(2)
proof (induction "retries - i" arbitrary: i slept)
  case 0
  then show ?case by simp
next
  case (Suc n)
  show ?case
  proof (cases "i = retries - 1")
    case True
    have u: "retry_from operation retries i slept
        = \<lparr>outcome = Inl (err i), sleeps = slept, calls = Suc i\<rparr>"
      using True Suc.prems assms(1) by (subst retry_from_unfold) simp
    show ?thesis
      unfolding u using True Suc.prems by simp
  next
    case False
    then have lt: "Suc i < retries" and n: "n = retries - Suc i"
      using Suc.prems Suc.hyps(2) by simp_all
    have up: "[i..<retries - 1] = i # [Suc i..<retries - 1]"
      using False Suc.prems by (simp add: upt_conv_Cons)
    have step: "retry_from operation retries i slept
        = retry_from operation retries (Suc i) (slept @ [RETRY_DELAY * 2 ^ i])"
      using False Suc.prems assms(1) by (subst retry_from_unfold) simp
    show ?thesis
      unfolding step up using Suc.hyps(1) [OF n lt, of "slept @ [RETRY_DELAY * 2 ^ i]"]
      by simp
  qed
qed

text \<open>
  Claim C7. For a repository that the API reports as not found at every request (token set,
  no cache file, admission granted), \<^verbatim>\<open>fetchRepository\<close> does return \<^verbatim>\<open>null\<close>, but only
  after \<^verbatim>\<open>retryWithBackoff\<close> has treated the 404 as a failure to retry: the operation is
  called three times, the attempt counter that sets the backoff is incremented twice, and the
  call sleeps 5000 and then 10000 milliseconds.
\<close>

theorem C7_not_found_is_retried:
  "fetchRepository not_found_env ''foo'' ''bar''
     = \<lparr>returned = Inr None, backoff_sleeps = [5000, 10000], api_calls = 3,
        cache_written = None\<rparr>"
  by (simp add: fetchRepository_def not_found_env_def retryWithBackoff_def MAX_RETRIES_def
      RETRY_DELAY_def Let_def eval_nat_numeral retry_from.simps)

section \<open>Properties of the rate limiter\<close>

subsection \<open>Pacing of admissions\<close>

lemma quiet_refl [simp]: "quiet s s"
  by (simp add: quiet_def)

lemma quiet_trans: "quiet s s1 \<Longrightarrow> quiet s1 s2 \<Longrightarrow> quiet s s2"
  by (auto simp add: quiet_def)

lemma spaced_quiet: "spaced s \<Longrightarrow> quiet s s' \<Longrightarrow> spaced s'"
  by (fastforce simp add: spaced_def quiet_def)

lemma saveState_quiet: "quiet s (fst (saveState env st s))"
  by (simp add: saveState_def quiet_def)

lemma updateFailedPromises_quiet: "quiet s (fst (updateFailedPromises env s))"
  by (simp add: updateFailedPromises_def saveState_quiet)

lemma handleTimeout_quiet: "quiet s (handleTimeout env it t s)"
  by (simp add: handleTimeout_def updateFailedPromises_def saveState_def quiet_def)

lemma fire_all_quiet: "quiet s (fire_all env its s)"
proof (induction its arbitrary: s)
  case Nil
  show ?case by simp
next
  case (Cons it its)
  show ?case
    using quiet_trans [OF handleTimeout_quiet Cons] by simp
qed

lemma fire_timers_quiet: "quiet s (fire_timers env T s)"
  by (simp add: fire_timers_def fire_all_quiet)

lemma enqueue_quiet: "quiet s (enqueue key s)"
  by (simp add: enqueue_def quiet_def)

lemma write_limits_quiet: "quiet s (write_limits env r t s)"
  by (simp add: write_limits_def Let_def saveState_def quiet_def)

lemma arrive_quiet: "quiet s (arrive env call s)"
  by (cases call) (simp_all add: enqueue_quiet write_limits_quiet)

lemma deliver_quiet:
  "admitted (deliver env T cs s) = admitted s
   \<and> max (rl_clock s) T \<le> rl_clock (deliver env T cs s)"
proof (induction cs arbitrary: s)
  case Nil
  show ?case using fire_timers_quiet [of s env T] by (simp add: quiet_def)
next
  case (Cons c cs)
  obtain tm call where c: "c = (tm, call)" by (cases c)
  let ?s1 = "(fire_timers env tm s)\<lparr>rl_clock := max (rl_clock s) tm\<rparr>"
  have q1: "admitted ?s1 = admitted s" "rl_clock ?s1 = max (rl_clock s) tm"
    using fire_timers_quiet [of s env tm] by (simp_all add: quiet_def)
  have q2: "admitted (arrive env call ?s1) = admitted s"
    "max (rl_clock s) tm \<le> rl_clock (arrive env call ?s1)"
    using arrive_quiet [of ?s1 env call] q1 by (simp_all add: quiet_def)
  show ?case
  proof (cases "tm \<le> T")
    case True
    then show ?thesis
      using Cons [of "arrive env call ?s1"] q2 by (simp add: c)
  next
    case False
    then show ?thesis
      using fire_timers_quiet [of s env T] by (simp add: c quiet_def)
  qed
qed

lemma nap_quiet:
  "admitted (nap env d s) = admitted s" "rl_clock s + d \<le> rl_clock (nap env d s)"
  using deliver_quiet [of env "rl_clock s + max 0 d + int (lag env (naps s))" "pending s"
      "s\<lparr>naps := Suc (naps s)\<rparr>"]
  by (auto simp add: nap_def)

lemma calculateDelay_min: "BASE_DELAY \<le> calculateDelay s"
  by (auto simp add: calculateDelay_def Let_def BASE_DELAY_def MAX_DELAY_def HOURLY_LIMIT_def)


lemma process_item_spaced:
  assumes "spaced s"
  shows "spaced (fst (snd (process_item env state s)))"
proof (cases "queue s")
  case Nil
  then show ?thesis using assms by (simp add: process_item_def)
next
  case (Cons item rest)
  let ?state1 = "state\<lparr>totalRequestsThisHour := totalRequestsThisHour state + 1,
                            lastRequestTime := rl_clock s\<rparr>"
  obtain s1 ok where sv: "saveState env ?state1 (s\<lparr>queue := rest\<rparr>) = (s1, ok)"
    by (cases "saveState env ?state1 (s\<lparr>queue := rest\<rparr>)")
  have q1: "quiet s s1"
    using saveState_quiet [of "s\<lparr>queue := rest\<rparr>" env ?state1] sv by (simp add: quiet_def)
  show ?thesis
  proof (cases ok)
    case True
    let ?s2 = "s1\<lparr>admitted := \<lparr>adm_ident = ident item, adm_retryCount = retryCount item,
                                 adm_time = rl_clock s1\<rparr> # admitted s1\<rparr>"
    let ?s3 = "nap env (calculateDelay ?s2) ?s2"
    have r: "fst (snd (process_item env state s)) = ?s3"
      using Cons sv True by (simp add: process_item_def Let_def)
    have a: "admitted ?s3 = admitted ?s2" by (rule nap_quiet(1))
    have c: "rl_clock s1 + BASE_DELAY \<le> rl_clock ?s3"
      using nap_quiet(2) [where s = ?s2 and d = "calculateDelay ?s2" and env = env]
        calculateDelay_min [of ?s2]
      by simp
    have s1: "spaced s1" using assms q1 by (rule spaced_quiet)
    have old: "\<forall>b \<in> set (admitted s1). adm_time b + BASE_DELAY \<le> rl_clock s1"
      and srt: "sorted_wrt (\<lambda>a b. adm_time b + BASE_DELAY \<le> adm_time a) (admitted s1)"
      using s1 by (simp_all add: spaced_def)
    have old': "\<forall>b \<in> set (admitted s1). adm_time b + BASE_DELAY \<le> rl_clock ?s3"
      using old c by (auto simp add: BASE_DELAY_def)
    show ?thesis
      unfolding r spaced_def a using old old' srt c by simp
  next
    case False
    show ?thesis
    proof (cases "retryCount item < RL_MAX_RETRIES")
      case True
      let ?s2 = "s1\<lparr>queue := queue s1 @ [item\<lparr>retryCount := retryCount item + 1,
                                                          timer_armed := False\<rparr>]\<rparr>"
      let ?state2 = "?state1\<lparr>lastError :=
                                  Some (''Failed to save rate limiter state'', rl_clock ?s2)\<rparr>"
      obtain s3 ok2 where sv2: "saveState env ?state2 ?s2 = (s3, ok2)"
        by (cases "saveState env ?state2 ?s2")
      have q3: "quiet s1 s3"
        using saveState_quiet [of ?s2 env ?state2] sv2 by (simp add: quiet_def)
      have q4: "quiet s3 (nap env RL_RETRY_DELAY s3)"
        using nap_quiet [where env = env and d = RL_RETRY_DELAY and s = s3]
        by (simp add: quiet_def RL_RETRY_DELAY_def)
      have r: "fst (snd (process_item env state s))
          = (if ok2 then nap env RL_RETRY_DELAY s3 else s3)"
        using Cons sv False True sv2 by (simp add: process_item_def Let_def)
      have q13: "quiet s s3" using q1 q3 by (rule quiet_trans)
      have "quiet s (nap env RL_RETRY_DELAY s3)" using q13 q4 by (rule quiet_trans)
      with q13 have "quiet s (if ok2 then nap env RL_RETRY_DELAY s3 else s3)" by simp
      with assms show ?thesis unfolding r by (rule spaced_quiet)
    next
      case nr: False
      let ?s2 = "s1\<lparr>rejected := \<lparr>rej_ident = ident item, rej_error = save_error,
                                             rej_time = rl_clock s1\<rparr> # rejected s1\<rparr>"
      have r: "fst (snd (process_item env state s)) = fst (updateFailedPromises env ?s2)"
        using Cons sv False nr
        by (simp add: process_item_def Let_def split: prod.splits bool.splits)
      have "quiet s1 (fst (updateFailedPromises env ?s2))"
        using updateFailedPromises_quiet [of ?s2 env] by (simp add: quiet_def)
      with q1 have "quiet s (fst (updateFailedPromises env ?s2))"
        by (rule quiet_trans)
      with assms show ?thesis unfolding r by (rule spaced_quiet)
    qed
  qed
qed

lemma burst_loop_spaced:
  "spaced s \<Longrightarrow> spaced (fst (burst_loop env n state s))"
proof (induction n arbitrary: state s)
  case 0
  then show ?case by simp
next
  case (Suc n)
  obtain state1 s1 r where p: "process_item env state s = (state1, s1, r)"
    by (cases "process_item env state s")
  have s1: "spaced s1" using process_item_spaced [OF Suc.prems, of env state] p by simp
  show ?case
    using p s1 Suc.IH [OF s1, of state1] by (cases r) simp_all
qed

lemma nap_spaced:
  assumes "spaced s" and "0 \<le> d"
  shows "spaced (nap env d s)"
proof -
  have "quiet s (nap env d s)"
    using nap_quiet [where env = env and d = d and s = s] assms(2) by (simp add: quiet_def)
  with assms(1) show ?thesis by (rule spaced_quiet)
qed

lemma drain_spaced:
  "spaced s \<Longrightarrow> spaced (fst (drain k env s))"
proof (induction k arbitrary: s)
  case 0
  then show ?case by simp
next
  case (Suc k)
  show ?case
  proof (cases "queue s = []")
    case True
    then show ?thesis using Suc.prems by simp
  next
    case ne: False
    show ?thesis
    proof (cases "currentBurst s = 0")
      case True
      have "spaced (nap env MAX_DELAY s)"
        using Suc.prems by (intro nap_spaced) (simp_all add: MAX_DELAY_def)
      then show ?thesis using ne True Suc.IH by simp
    next
      case False
      obtain s1 r where b: "burst_loop env (nat (currentBurst s)) (stateFile s) s = (s1, r)"
        by (cases "burst_loop env (nat (currentBurst s)) (stateFile s) s")
      have s1: "spaced s1"
        using burst_loop_spaced [OF Suc.prems, of env "nat (currentBurst s)" "stateFile s"] b
        by simp
      have "0 \<le> burstDelay s1" by (simp add: burstDelay_def BURST_DELAY_def)
      then have s2: "spaced (if queue s1 \<noteq> [] then nap env (burstDelay s1) s1 else s1)"
        using s1 nap_spaced by simp
      show ?thesis
        using ne False b s1 Suc.IH [OF s2] by (cases r) simp_all
    qed
  qed
qed


lemma reject_queue_quiet: "quiet s (reject_queue env e items s)"
proof (induction items arbitrary: s)
  case Nil
  show ?case by (simp add: quiet_def)
next
  case (Cons item rest)
  let ?s0 = "s\<lparr>queue := rest,
                rejected := \<lparr>rej_ident = ident item, rej_error = e, rej_time = rl_clock s\<rparr>
                            # rejected s\<rparr>"
  obtain s1 ok where u: "updateFailedPromises env ?s0 = (s1, ok)"
    by (cases "updateFailedPromises env ?s0")
  have q1: "quiet s s1"
    using updateFailedPromises_quiet [of ?s0 env] u by (simp add: quiet_def)
  have q2: "quiet s (reject_queue env e rest s1)"
    using q1 Cons [of s1] by (rule quiet_trans)
  show ?case using u q1 q2 by (cases ok) simp_all
qed

lemma emergency_quiet: "quiet s (emergency env e s)"
proof -
  let ?st = "(stateFile s)\<lparr>lastError :=
               Some (''Failed to save rate limiter state'', rl_clock s)\<rparr>"
  obtain s1 ok where sv: "saveState env ?st s = (s1, ok)"
    by (cases "saveState env ?st s")
  have q1: "quiet s s1" using saveState_quiet [of s env ?st] sv by simp
  have q2: "quiet s (reject_queue env e (queue s1) s1)"
    using q1 reject_queue_quiet by (rule quiet_trans)
  show ?thesis using sv q1 q2 by (cases ok) (simp_all add: emergency_def)
qed

lemma spaced_processing [simp]: "spaced (s\<lparr>rl_processing := b\<rparr>) = spaced s"
  by (simp add: spaced_def)

lemma processQueue_spaced:
  assumes "spaced s"
  shows "spaced (processQueue k env s)"
proof (cases "rl_processing s")
  case True
  then show ?thesis using assms by (simp add: processQueue_def)
next
  case False
  obtain s1 r where d: "drain k env (s\<lparr>rl_processing := True\<rparr>) = (s1, r)"
    by (cases "drain k env (s\<lparr>rl_processing := True\<rparr>)")
  have s1: "spaced s1"
    using drain_spaced [of "s\<lparr>rl_processing := True\<rparr>" k env] assms d by simp
  show ?thesis
  proof (cases r)
    case Drained
    then show ?thesis using False d s1 by (simp add: processQueue_def)
  next
    case (Thrown e)
    have "spaced (emergency env e s1)"
      using s1 emergency_quiet by (rule spaced_quiet)
    then show ?thesis using False d Thrown by (simp add: processQueue_def)
  next
    case Running
    then show ?thesis using False d s1 by (simp add: processQueue_def)
  qed
qed

lemma acquire_spaced: "spaced s \<Longrightarrow> spaced (acquire k env key s)"
proof -
  assume a: "spaced s"
  have e: "spaced (enqueue key s)" using a enqueue_quiet by (rule spaced_quiet)
  show ?thesis using e processQueue_spaced [OF e] by (simp add: acquire_def Let_def)
qed

lemma updateLimits_spaced: "spaced s \<Longrightarrow> spaced (updateLimits k env r t s)"
proof -
  assume a: "spaced s"
  have e: "spaced (write_limits env r t s)" using a write_limits_quiet by (rule spaced_quiet)
  show ?thesis using e processQueue_spaced [OF e] by (simp add: updateLimits_def Let_def)
qed

lemma run_spaced: "spaced s \<Longrightarrow> spaced (run n k env s)"
proof (induction n arbitrary: s)
  case 0
  then show ?case by simp
next
  case (Suc n)
  show ?case
  proof (cases "pending s")
    case Nil
    then show ?thesis using Suc.prems by simp
  next
    case (Cons c rest)
    obtain tm call where c: "c = (tm, call)" by (cases c)
    let ?s1 = "(fire_timers env tm s)\<lparr>rl_clock := max (rl_clock s) tm, pending := rest\<rparr>"
    have "quiet s ?s1" using fire_timers_quiet [of s env tm] by (simp add: quiet_def)
    with Suc.prems have s1: "spaced ?s1" by (rule spaced_quiet)
    have s2: "spaced (case call of
                  Acquire key \<Rightarrow> acquire k env key ?s1
                | UpdateLimits remaining reset \<Rightarrow> updateLimits k env remaining reset ?s1)"
      using acquire_spaced [OF s1] updateLimits_spaced [OF s1] by (cases call) simp_all
    show ?thesis using Cons c Suc.IH [OF s2] by (simp add: Let_def)
  qed
qed

lemma new_limiter_spaced: "spaced (new_limiter now cs)"
  by (simp add: spaced_def new_limiter_def)

lemma spaced_window:
  fixes t :: "'a \<Rightarrow> int"
  assumes "0 < d"
  shows "sorted_wrt (\<lambda>a b. t b + d \<le> t a) xs \<Longrightarrow> xs \<noteq> [] \<Longrightarrow>
         \<forall>a \<in> set xs. w \<le> t a \<and> t a < w + L \<Longrightarrow> (int (length xs) - 1) * d < L"
proof (induction xs arbitrary: L)
  case Nil
  then show ?case by simp
next
  case (Cons x xs)
  show ?case
  proof (cases "xs = []")
    case True
    then show ?thesis using Cons.prems by auto
  next
    case False
    have srt: "sorted_wrt (\<lambda>a b. t b + d \<le> t a) xs" using Cons.prems(1) by simp
    have "\<forall>a \<in> set xs. w \<le> t a \<and> t a < w + (L - d)"
      using Cons.prems(1,3) by fastforce
    then have "(int (length xs) - 1) * d < L - d"
      using Cons.IH [OF srt False] by blast
    then show ?thesis by (simp add: algebra_simps)
  qed
qed

lemma spaced_hour:
  assumes "spaced s"
  shows "length (admissions_in_hour w s) \<le> 3600"
proof (cases "admissions_in_hour w s = []")
  case True
  then show ?thesis by simp
next
  case False
  have srt: "sorted_wrt (\<lambda>a b. adm_time b + 1000 \<le> adm_time a) (admissions_in_hour w s)"
    using assms unfolding admissions_in_hour_def spaced_def BASE_DELAY_def
    by (simp add: sorted_wrt_filter)
  have win: "\<forall>a \<in> set (admissions_in_hour w s). w \<le> adm_time a \<and> adm_time a < w + 3600000"
    by (simp add: admissions_in_hour_def)
  have "(int (length (admissions_in_hour w s)) - 1) * 1000 < 3600000"
    using spaced_window [of 1000 adm_time "admissions_in_hour w s" w 3600000, OF _ srt False win]
    by simp
  then show ?thesis by simp
qed


text \<open>
  Claim C3. Whatever calls are made to a limiter, whenever they are made, whichever writes of
  the state file fail and however late its timers are, at every moment of its run the number
  of admissions inside any window of one hour is at most \<^verbatim>\<open>HOURLY_LIMIT\<close> (4500). The
  limiter counts nothing against that limit; the bound holds because one drain loop runs at
  a time and sleeps at least \<^verbatim>\<open>BASE_DELAY\<close> (one second) after each admission, so an
  hour holds at most 3600 of them.
\<close>

theorem C3_hourly_ceiling:
  "int (length (admissions_in_hour w (run n k env (new_limiter now cs)))) \<le> HOURLY_LIMIT"
proof -
  have "spaced (run n k env (new_limiter now cs))"
    using new_limiter_spaced by (rule run_spaced)
  then have "length (admissions_in_hour w (run n k env (new_limiter now cs))) \<le> 3600"
    by (rule spaced_hour)
  then show ?thesis by (simp add: HOURLY_LIMIT_def)
qed

theorem C3_hourly_ceiling_witness:
  "int (length (admissions_in_hour 0
     (run 10 20 calm (new_limiter 0 [(0, Acquire ''a''), (10, Acquire ''b'')]))))
   \<le> HOURLY_LIMIT"
  by (rule C3_hourly_ceiling)

subsection \<open>Identity of requests\<close>

lemma same_core_refl [simp]: "same_core s s"
  by (simp add: same_core_def)

lemma same_core_trans: "same_core s s1 \<Longrightarrow> same_core s1 s2 \<Longrightarrow> same_core s s2"
  by (simp add: same_core_def)

lemma wf_same_core: "wf_limiter s \<Longrightarrow> same_core s s' \<Longrightarrow> wf_limiter s'"
  by (simp add: wf_limiter_def idents_ok_def settled_def fifo_def same_core_def)

lemma saveState_core: "same_core s (fst (saveState env st s))"
  by (simp add: saveState_def same_core_def)

lemma updateFailedPromises_core: "same_core s (fst (updateFailedPromises env s))"
  by (simp add: updateFailedPromises_def saveState_core)

lemma write_limits_core: "same_core s (write_limits env r t s)"
  by (simp add: write_limits_def Let_def saveState_def same_core_def)

lemma splice_out_subset: "set (splice_out i q) \<subseteq> set q"
  by (induction q) auto

lemma splice_out_filter:
  "distinct (map ident q) \<Longrightarrow> splice_out i q = filter (\<lambda>x. ident x \<noteq> i) q"
proof (induction q)
  case Nil
  show ?case by simp
next
  case (Cons x xs)
  show ?case
  proof (cases "ident x = i")
    case True
    then have "\<forall>y \<in> set xs. ident y \<noteq> i" using Cons.prems by (auto simp add: image_iff)
    then have "filter (\<lambda>x. ident x \<noteq> i) xs = xs" by (simp add: filter_id_conv)
    then show ?thesis using True by simp
  next
    case False
    then show ?thesis using Cons by simp
  qed
qed

lemma wf_drop:
  assumes "wf_limiter s" and "i \<in> ident ` set (queue s)"
  shows "wf_limiter (s\<lparr>queue := filter (\<lambda>x. ident x \<noteq> i) (queue s),
            rejected := \<lparr>rej_ident = i, rej_error = e, rej_time = t\<rparr> # rejected s\<rparr>)"
proof -
  let ?s' = "s\<lparr>queue := filter (\<lambda>x. ident x \<noteq> i) (queue s),
            rejected := \<lparr>rej_ident = i, rej_error = e, rej_time = t\<rparr> # rejected s\<rparr>"
  have io: "idents_ok s" and st: "settled s" and ff: "fifo s"
    using assms(1) by (simp_all add: wf_limiter_def)
  have lt: "i < next_ident s" using io assms(2) by (auto simp add: idents_ok_def image_iff)
  have 1: "idents_ok ?s'"
    using io lt by (auto simp add: idents_ok_def distinct_map_filter image_iff)
  have na: "i \<notin> adm_ident ` set (admitted s)"
    using st assms(2) by (auto simp add: settled_def image_iff)
  have 2: "settled ?s'"
    using st na by (auto simp add: settled_def image_iff)
  have 3: "fifo ?s'"
    using ff by (auto simp add: fifo_def sorted_wrt_filter)
  show ?thesis using 1 2 3 by (simp add: wf_limiter_def)
qed

lemma wf_enqueue: "wf_limiter s \<Longrightarrow> wf_limiter (enqueue key s)"
proof -
  assume w: "wf_limiter s"
  have io: "idents_ok s" and st: "settled s" and ff: "fifo s"
    using w by (simp_all add: wf_limiter_def)
  have 1: "idents_ok (enqueue key s)"
    using io by (fastforce simp add: idents_ok_def enqueue_def less_Suc_eq image_iff)
  have 2: "settled (enqueue key s)"
    using st io by (fastforce simp add: settled_def idents_ok_def enqueue_def image_iff)
  have 3: "fifo (enqueue key s)"
    using ff io by (auto simp add: fifo_def idents_ok_def enqueue_def sorted_wrt_append)
  show ?thesis using 1 2 3 by (simp add: wf_limiter_def)
qed

lemma wf_admit:
  assumes "wf_limiter s" and "queue s = item # rest"
  shows "wf_limiter (s\<lparr>queue := rest,
            admitted := \<lparr>adm_ident = ident item, adm_retryCount = retryCount item,
                          adm_time = t\<rparr> # admitted s\<rparr>)"
proof -
  have io: "idents_ok s" and st: "settled s" and ff: "fifo s"
    using assms(1) by (simp_all add: wf_limiter_def)
  have 1: "idents_ok (s\<lparr>queue := rest,
            admitted := \<lparr>adm_ident = ident item, adm_retryCount = retryCount item,
                          adm_time = t\<rparr> # admitted s\<rparr>)"
    using io assms(2) by (auto simp add: idents_ok_def image_iff)
  have 2: "settled (s\<lparr>queue := rest,
            admitted := \<lparr>adm_ident = ident item, adm_retryCount = retryCount item,
                          adm_time = t\<rparr> # admitted s\<rparr>)"
    using st io assms(2) by (auto simp add: settled_def idents_ok_def image_iff)
  have 3: "fifo (s\<lparr>queue := rest,
            admitted := \<lparr>adm_ident = ident item, adm_retryCount = retryCount item,
                          adm_time = t\<rparr> # admitted s\<rparr>)"
    using ff assms(2) by (auto simp add: fifo_def)
  show ?thesis using 1 2 3 by (simp add: wf_limiter_def)
qed

lemma wf_retry:
  assumes "wf_limiter s" and "queue s = item # rest"
  shows "wf_limiter (s\<lparr>queue := rest @ [item\<lparr>retryCount := retryCount item + 1,
                                                  timer_armed := False\<rparr>]\<rparr>)"
proof -
  have io: "idents_ok s" and st: "settled s" and ff: "fifo s"
    using assms(1) by (simp_all add: wf_limiter_def)
  have 1: "idents_ok (s\<lparr>queue := rest @ [item\<lparr>retryCount := retryCount item + 1,
                                                  timer_armed := False\<rparr>]\<rparr>)"
    using io assms(2) by (auto simp add: idents_ok_def image_iff)
  have 2: "settled (s\<lparr>queue := rest @ [item\<lparr>retryCount := retryCount item + 1,
                                                  timer_armed := False\<rparr>]\<rparr>)"
    using st assms(2) by (auto simp add: settled_def image_iff)
  have 3: "fifo (s\<lparr>queue := rest @ [item\<lparr>retryCount := retryCount item + 1,
                                                  timer_armed := False\<rparr>]\<rparr>)"
    using ff assms(2) by (auto simp add: fifo_def sorted_wrt_append)
  show ?thesis using 1 2 3 by (simp add: wf_limiter_def)
qed

lemma wf_reject_head:
  assumes "wf_limiter s" and "queue s = item # rest"
  shows "wf_limiter (s\<lparr>queue := rest,
            rejected := \<lparr>rej_ident = ident item, rej_error = e, rej_time = t\<rparr> # rejected s\<rparr>)"
proof -
  have d: "distinct (map ident (queue s))"
    using assms(1) by (simp add: wf_limiter_def idents_ok_def)
  then have "\<forall>y \<in> set rest. ident y \<noteq> ident item"
    using assms(2) by (auto simp add: image_iff)
  then have "filter (\<lambda>x. ident x \<noteq> ident item) rest = rest" by (simp add: filter_id_conv)
  then have f: "filter (\<lambda>x. ident x \<noteq> ident item) (queue s) = rest"
    using assms(2) by simp
  have "ident item \<in> ident ` set (queue s)" using assms(2) by simp
  from wf_drop [OF assms(1) this, of e t] show ?thesis by (simp add: f)
qed


lemma wf_other_fields [simp]:
  "wf_limiter (s\<lparr>rl_clock := c\<rparr>) = wf_limiter s"
  "wf_limiter (s\<lparr>pending := p\<rparr>) = wf_limiter s"
  "wf_limiter (s\<lparr>naps := m\<rparr>) = wf_limiter s"
  "wf_limiter (s\<lparr>rl_processing := b\<rparr>) = wf_limiter s"
  by (simp_all add: wf_limiter_def idents_ok_def settled_def fifo_def)

lemma handleTimeout_wf: "wf_limiter s \<Longrightarrow> wf_limiter (handleTimeout env it t s)"
proof (cases "ident it \<in> ident ` set (queue s)")
  case False
  assume "wf_limiter s"
  then show ?thesis using False by (simp add: handleTimeout_def)
next
  case True
  assume w: "wf_limiter s"
  have d: "distinct (map ident (queue s))"
    using w by (simp add: wf_limiter_def idents_ok_def)
  let ?s1 = "s\<lparr>queue := splice_out (ident it) (queue s),
             rejected := \<lparr>rej_ident = ident it, rej_error = timeout_error, rej_time = t\<rparr>
                         # rejected s\<rparr>"
  have "wf_limiter ?s1"
    using wf_drop [OF w True, of timeout_error t] by (simp add: splice_out_filter [OF d])
  then have "wf_limiter (fst (updateFailedPromises env ?s1))"
    using updateFailedPromises_core by (rule wf_same_core)
  then show ?thesis using True by (simp add: handleTimeout_def)
qed

lemma fire_all_wf: "wf_limiter s \<Longrightarrow> wf_limiter (fire_all env its s)"
proof (induction its arbitrary: s)
  case Nil
  then show ?case by simp
next
  case (Cons it its)
  have "wf_limiter (handleTimeout env it (queuedAt it + REQUEST_TIMEOUT) s)"
    using Cons.prems by (rule handleTimeout_wf)
  then show ?case using Cons.IH by simp
qed

lemma fire_timers_wf: "wf_limiter s \<Longrightarrow> wf_limiter (fire_timers env T s)"
  by (simp add: fire_timers_def fire_all_wf)

lemma arrive_wf: "wf_limiter s \<Longrightarrow> wf_limiter (arrive env call s)"
proof (cases call)
  case (Acquire key)
  assume "wf_limiter s"
  then show ?thesis using Acquire by (simp add: wf_enqueue)
next
  case (UpdateLimits r t)
  assume "wf_limiter s"
  then have "wf_limiter (write_limits env r t s)"
    using write_limits_core by (rule wf_same_core)
  then show ?thesis using UpdateLimits by simp
qed

lemma deliver_wf: "wf_limiter s \<Longrightarrow> wf_limiter (deliver env T cs s)"
proof (induction cs arbitrary: s)
  case Nil
  then show ?case by (simp add: fire_timers_wf)
next
  case (Cons c cs)
  obtain tm call where c: "c = (tm, call)" by (cases c)
  have 1: "wf_limiter (arrive env call ((fire_timers env tm s)\<lparr>rl_clock := max (rl_clock s) tm\<rparr>))"
    using Cons.prems by (intro arrive_wf) (simp add: fire_timers_wf)
  show ?case
    using Cons.prems Cons.IH [OF 1] by (simp add: c fire_timers_wf)
qed

lemma nap_wf: "wf_limiter s \<Longrightarrow> wf_limiter (nap env d s)"
  by (simp add: nap_def deliver_wf)

lemma saveState_wf: "wf_limiter s \<Longrightarrow> saveState env st s = (s1, ok) \<Longrightarrow> wf_limiter s1"
  using saveState_core [of s env st] wf_same_core by fastforce

lemma updateFailedPromises_wf:
  "wf_limiter s \<Longrightarrow> updateFailedPromises env s = (s1, ok) \<Longrightarrow> wf_limiter s1"
  using updateFailedPromises_core [of s env] wf_same_core by fastforce

lemma saveState_fields:
  "saveState env st s = (s1, ok) \<Longrightarrow>
   queue s1 = queue s \<and> admitted s1 = admitted s \<and> rejected s1 = rejected s
   \<and> next_ident s1 = next_ident s \<and> rl_clock s1 = rl_clock s"
  by (auto simp add: saveState_def split: if_splits)

lemma process_item_wf:
  assumes "wf_limiter s"
  shows "wf_limiter (fst (snd (process_item env state s)))"
proof (cases "queue s")
  case Nil
  then show ?thesis using assms by (simp add: process_item_def)
next
  case (Cons item rest)
  let ?state1 = "state\<lparr>totalRequestsThisHour := totalRequestsThisHour state + 1,
                            lastRequestTime := rl_clock s\<rparr>"
  obtain s1 ok where sv: "saveState env ?state1 (s\<lparr>queue := rest\<rparr>) = (s1, ok)"
    by (cases "saveState env ?state1 (s\<lparr>queue := rest\<rparr>)")
  note f1 = saveState_fields [OF sv]
  show ?thesis
  proof (cases ok)
    case True
    let ?s2 = "s1\<lparr>admitted := \<lparr>adm_ident = ident item, adm_retryCount = retryCount item,
                                 adm_time = rl_clock s1\<rparr> # admitted s1\<rparr>"
    have r: "fst (snd (process_item env state s)) = nap env (calculateDelay ?s2) ?s2"
      using Cons sv True by (simp add: process_item_def Let_def)
    have "same_core (s\<lparr>queue := rest,
            admitted := \<lparr>adm_ident = ident item, adm_retryCount = retryCount item,
                          adm_time = rl_clock s1\<rparr> # admitted s\<rparr>) ?s2"
      using f1 by (simp add: same_core_def)
    with wf_admit [OF assms Cons, of "rl_clock s1"] have "wf_limiter ?s2"
      by (rule wf_same_core)
    then show ?thesis unfolding r by (rule nap_wf)
  next
    case False
    show ?thesis
    proof (cases "retryCount item < RL_MAX_RETRIES")
      case True
      let ?s2 = "s1\<lparr>queue := queue s1 @ [item\<lparr>retryCount := retryCount item + 1,
                                                          timer_armed := False\<rparr>]\<rparr>"
      let ?state2 = "?state1\<lparr>lastError :=
                                  Some (''Failed to save rate limiter state'', rl_clock ?s2)\<rparr>"
      obtain s3 ok2 where sv2: "saveState env ?state2 ?s2 = (s3, ok2)"
        by (cases "saveState env ?state2 ?s2")
      have "same_core (s\<lparr>queue := rest @ [item\<lparr>retryCount := retryCount item + 1,
                                                  timer_armed := False\<rparr>]\<rparr>) ?s2"
        using f1 by (simp add: same_core_def)
      with wf_retry [OF assms Cons] have "wf_limiter ?s2" by (rule wf_same_core)
      then have w3: "wf_limiter s3" using sv2 by (rule saveState_wf)
      have r: "fst (snd (process_item env state s))
          = (if ok2 then nap env RL_RETRY_DELAY s3 else s3)"
        using Cons sv False True sv2 by (simp add: process_item_def Let_def)
      show ?thesis unfolding r using w3 nap_wf by simp
    next
      case nr: False
      let ?s2 = "s1\<lparr>rejected := \<lparr>rej_ident = ident item, rej_error = save_error,
                                             rej_time = rl_clock s1\<rparr> # rejected s1\<rparr>"
      have r: "fst (snd (process_item env state s)) = fst (updateFailedPromises env ?s2)"
        using Cons sv False nr
        by (simp add: process_item_def Let_def split: prod.splits bool.splits)
      have "same_core (s\<lparr>queue := rest,
            rejected := \<lparr>rej_ident = ident item, rej_error = save_error,
                          rej_time = rl_clock s1\<rparr> # rejected s\<rparr>) ?s2"
        using f1 by (simp add: same_core_def)
      with wf_reject_head [OF assms Cons, of save_error "rl_clock s1"]
      have "wf_limiter ?s2" by (rule wf_same_core)
      then show ?thesis
        unfolding r using updateFailedPromises_core by (rule wf_same_core)
    qed
  qed
qed

lemma burst_loop_wf:
  "wf_limiter s \<Longrightarrow> wf_limiter (fst (burst_loop env n state s))"
proof (induction n arbitrary: state s)
  case 0
  then show ?case by simp
next
  case (Suc n)
  obtain state1 s1 r where p: "process_item env state s = (state1, s1, r)"
    by (cases "process_item env state s")
  have s1: "wf_limiter s1" using process_item_wf [OF Suc.prems, of env state] p by simp
  show ?case
    using p s1 Suc.IH [OF s1, of state1] by (cases r) simp_all
qed

lemma drain_wf:
  "wf_limiter s \<Longrightarrow> wf_limiter (fst (drain k env s))"
proof (induction k arbitrary: s)
  case 0
  then show ?case by simp
next
  case (Suc k)
  show ?case
  proof (cases "queue s = []")
    case True
    then show ?thesis using Suc.prems by simp
  next
    case ne: False
    show ?thesis
    proof (cases "currentBurst s = 0")
      case True
      have "wf_limiter (nap env MAX_DELAY s)" using Suc.prems by (rule nap_wf)
      then show ?thesis using ne True Suc.IH by simp
    next
      case False
      obtain s1 r where b: "burst_loop env (nat (currentBurst s)) (stateFile s) s = (s1, r)"
        by (cases "burst_loop env (nat (currentBurst s)) (stateFile s) s")
      have s1: "wf_limiter s1"
        using burst_loop_wf [OF Suc.prems, of env "nat (currentBurst s)" "stateFile s"] b
        by simp
      have s2: "wf_limiter (if queue s1 \<noteq> [] then nap env (burstDelay s1) s1 else s1)"
        using s1 nap_wf by simp
      show ?thesis
        using ne False b s1 Suc.IH [OF s2] by (cases r) simp_all
    qed
  qed
qed

lemma reject_queue_wf:
  "wf_limiter s \<Longrightarrow> queue s = items \<Longrightarrow> wf_limiter (reject_queue env e items s)"
proof (induction items arbitrary: s)
  case Nil
  then have "same_core s (s\<lparr>queue := []\<rparr>)" by (simp add: same_core_def)
  with Nil(1) have "wf_limiter (s\<lparr>queue := []\<rparr>)" by (rule wf_same_core)
  then show ?case by simp
next
  case (Cons item rest)
  let ?s0 = "s\<lparr>queue := rest,
                rejected := \<lparr>rej_ident = ident item, rej_error = e, rej_time = rl_clock s\<rparr>
                            # rejected s\<rparr>"
  obtain s1 ok where u: "updateFailedPromises env ?s0 = (s1, ok)"
    by (cases "updateFailedPromises env ?s0")
  have w0: "wf_limiter ?s0" using Cons.prems by (intro wf_reject_head) simp_all
  have w1: "wf_limiter s1" using w0 u by (rule updateFailedPromises_wf)
  have q1: "queue s1 = rest"
    using updateFailedPromises_core [of ?s0 env] u by (simp add: same_core_def)
  show ?case using u w1 Cons.IH [OF w1 q1] by (cases ok) simp_all
qed

lemma emergency_wf: "wf_limiter s \<Longrightarrow> wf_limiter (emergency env e s)"
proof -
  assume w: "wf_limiter s"
  let ?st = "(stateFile s)\<lparr>lastError :=
               Some (''Failed to save rate limiter state'', rl_clock s)\<rparr>"
  obtain s1 ok where sv: "saveState env ?st s = (s1, ok)"
    by (cases "saveState env ?st s")
  have w1: "wf_limiter s1" using w sv by (rule saveState_wf)
  have "wf_limiter (reject_queue env e (queue s1) s1)"
    using w1 by (intro reject_queue_wf) simp_all
  then show ?thesis using sv w1 by (cases ok) (simp_all add: emergency_def)
qed

lemma processQueue_wf:
  assumes "wf_limiter s"
  shows "wf_limiter (processQueue k env s)"
proof (cases "rl_processing s")
  case True
  then show ?thesis using assms by (simp add: processQueue_def)
next
  case False
  obtain s1 r where d: "drain k env (s\<lparr>rl_processing := True\<rparr>) = (s1, r)"
    by (cases "drain k env (s\<lparr>rl_processing := True\<rparr>)")
  have s1: "wf_limiter s1"
    using drain_wf [of "s\<lparr>rl_processing := True\<rparr>" k env] assms d by simp
  show ?thesis
  proof (cases r)
    case Drained
    then show ?thesis using False d s1 by (simp add: processQueue_def)
  next
    case (Thrown e)
    have "wf_limiter (emergency env e s1)" using s1 by (rule emergency_wf)
    then show ?thesis using False d Thrown by (simp add: processQueue_def)
  next
    case Running
    then show ?thesis using False d s1 by (simp add: processQueue_def)
  qed
qed

lemma acquire_wf: "wf_limiter s \<Longrightarrow> wf_limiter (acquire k env key s)"
proof -
  assume a: "wf_limiter s"
  have e: "wf_limiter (enqueue key s)" using a by (rule wf_enqueue)
  show ?thesis using e processQueue_wf [OF e] by (simp add: acquire_def Let_def)
qed

lemma updateLimits_wf: "wf_limiter s \<Longrightarrow> wf_limiter (updateLimits k env r t s)"
proof -
  assume a: "wf_limiter s"
  have e: "wf_limiter (write_limits env r t s)" using a write_limits_core by (rule wf_same_core)
  show ?thesis using e processQueue_wf [OF e] by (simp add: updateLimits_def Let_def)
qed

lemma run_wf: "wf_limiter s \<Longrightarrow> wf_limiter (run n k env s)"
proof (induction n arbitrary: s)
  case 0
  then show ?case by simp
next
  case (Suc n)
  show ?case
  proof (cases "pending s")
    case Nil
    then show ?thesis using Suc.prems by simp
  next
    case (Cons c rest)
    obtain tm call where c: "c = (tm, call)" by (cases c)
    let ?s1 = "(fire_timers env tm s)\<lparr>rl_clock := max (rl_clock s) tm, pending := rest\<rparr>"
    have s1: "wf_limiter ?s1" using Suc.prems by (simp add: fire_timers_wf)
    have s2: "wf_limiter (case call of
                  Acquire key \<Rightarrow> acquire k env key ?s1
                | UpdateLimits remaining reset \<Rightarrow> updateLimits k env remaining reset ?s1)"
      using acquire_wf [OF s1] updateLimits_wf [OF s1] by (cases call) simp_all
    show ?thesis using Cons c Suc.IH [OF s2] by (simp add: Let_def)
  qed
qed

lemma new_limiter_wf: "wf_limiter (new_limiter now cs)"
  by (simp add: wf_limiter_def idents_ok_def settled_def fifo_def new_limiter_def)


subsection \<open>Admission order\<close>

lemma sorted_wrt_conj:
  "sorted_wrt (\<lambda>a b. P a b \<and> Q a b) xs = (sorted_wrt P xs \<and> sorted_wrt Q xs)"
  by (induction xs) auto

lemma sorted_wrt_pair:
  "sorted_wrt R xs \<Longrightarrow> x \<in> set xs \<Longrightarrow> y \<in> set xs \<Longrightarrow> x = y \<or> R x y \<or> R y x"
  by (induction xs) auto

lemma admitted_order:
  assumes "spaced s" and "fifo s"
    and "x \<in> set (admitted s)" and "y \<in> set (admitted s)"
    and "adm_ident x < adm_ident y" and "adm_retryCount x = 0"
  shows "adm_time x \<le> adm_time y"
proof -
  let ?R = "\<lambda>a b. adm_time b + BASE_DELAY \<le> adm_time a
                 \<and> (adm_retryCount a = 0 \<longrightarrow> adm_ident b < adm_ident a)"
  have "sorted_wrt ?R (admitted s)"
    using assms(1,2) by (simp add: sorted_wrt_conj spaced_def fifo_def)
  then have "x = y \<or> ?R x y \<or> ?R y x"
    using assms(3,4) by (rule sorted_wrt_pair)
  then show ?thesis
    using assms(5,6) by (auto simp add: BASE_DELAY_def)
qed

text \<open>
  Claim C6, as the code has it. Requests are numbered in the order of their \<^verbatim>\<open>acquire\<close>
  calls. At every moment of a run, for two admitted requests A and B with A enqueued before
  B, A was admitted no later than B provided A was admitted at its first attempt (its retry
  count was 0 when it was admitted).
\<close>

theorem C6_fifo_without_retry:
  "\<forall>x \<in> set (admitted (run n k env (new_limiter now cs))).
   \<forall>y \<in> set (admitted (run n k env (new_limiter now cs))).
     adm_ident x < adm_ident y \<and> adm_retryCount x = 0 \<longrightarrow> adm_time x \<le> adm_time y"
proof -
  let ?S = "run n k env (new_limiter now cs)"
  have sp: "spaced ?S" using new_limiter_spaced by (rule run_spaced)
  have "wf_limiter ?S" using new_limiter_wf by (rule run_wf)
  then have ff: "fifo ?S" by (simp add: wf_limiter_def)
  show ?thesis using admitted_order [OF sp ff] by blast
qed

lemma retry_run_admitted:
  "admitted retry_run =
    [\<lparr>adm_ident = 1, adm_retryCount = 1, adm_time = 7300\<rparr>,
     \<lparr>adm_ident = 2, adm_retryCount = 0, adm_time = 6200\<rparr>,
     \<lparr>adm_ident = 0, adm_retryCount = 0, adm_time = 0\<rparr>]"
  by code_simp

theorem C6_fifo_without_retry_witness:
  "\<lparr>adm_ident = 0, adm_retryCount = 0, adm_time = 0\<rparr> \<in> set (admitted retry_run)
   \<and> \<lparr>adm_ident = 2, adm_retryCount = 0, adm_time = 6200\<rparr> \<in> set (admitted retry_run)
   \<and> (0::nat) < 2 \<and> (0::int) \<le> 6200"
proof -
  have m: "\<lparr>adm_ident = 0, adm_retryCount = 0, adm_time = 0\<rparr> \<in> set (admitted retry_run)"
    "\<lparr>adm_ident = 2, adm_retryCount = 0, adm_time = 6200\<rparr> \<in> set (admitted retry_run)"
    by (simp_all add: retry_run_admitted)
  have "adm_time \<lparr>adm_ident = 0, adm_retryCount = 0, adm_time = 0\<rparr>
      \<le> adm_time \<lparr>adm_ident = 2, adm_retryCount = 0, adm_time = 6200\<rparr>"
    using C6_fifo_without_retry [of 10 20 one_failed_save 0
        "[(0, Acquire ''a''), (10, Acquire ''b''), (20, Acquire ''c'')]"] m
    unfolding retry_run_def [symmetric] by fastforce
  with m show ?thesis by simp
qed

text \<open>
  The claim as stated fails on \<open>retry_run\<close>: the request made at 10 ms (number 1) and the one
  made at 20 ms (number 2) are both admitted, the later one at 6200 ms and the earlier one,
  re-queued behind it after its failed attempt, at 7300 ms.
\<close>

theorem C6_fifo_counterexample:
  "admitted retry_run =
    [\<lparr>adm_ident = 1, adm_retryCount = 1, adm_time = 7300\<rparr>,
     \<lparr>adm_ident = 2, adm_retryCount = 0, adm_time = 6200\<rparr>,
     \<lparr>adm_ident = 0, adm_retryCount = 0, adm_time = 0\<rparr>]
   \<and> (1::nat) < 2 \<and> (6200::int) < 7300"
  by code_simp


subsection \<open>Timeouts\<close>

lemma handleTimeout_queue:
  assumes "distinct (map ident (queue s))"
  shows "queue (handleTimeout env it t s) = filter (\<lambda>x. ident x \<noteq> ident it) (queue s)"
proof (cases "ident it \<in> ident ` set (queue s)")
  case True
  then show ?thesis
    by (simp add: handleTimeout_def updateFailedPromises_def saveState_def
        splice_out_filter [OF assms])
next
  case False
  then have "\<forall>x \<in> set (queue s). ident x \<noteq> ident it" by (auto simp add: image_iff)
  then have "filter (\<lambda>x. ident x \<noteq> ident it) (queue s) = queue s"
    by (simp add: filter_id_conv)
  then show ?thesis using False by (simp add: handleTimeout_def)
qed

lemma handleTimeout_rejected:
  "set (rejected s) \<subseteq> set (rejected (handleTimeout env it t s))"
  by (auto simp add: handleTimeout_def updateFailedPromises_def saveState_def)

lemma handleTimeout_rejects:
  "ident it \<in> ident ` set (queue s) \<Longrightarrow>
   \<lparr>rej_ident = ident it, rej_error = timeout_error, rej_time = t\<rparr>
     \<in> set (rejected (handleTimeout env it t s))"
  by (simp add: handleTimeout_def updateFailedPromises_def saveState_def)

lemma fire_all_rejected: "set (rejected s) \<subseteq> set (rejected (fire_all env its s))"
proof (induction its arbitrary: s)
  case Nil
  show ?case by simp
next
  case (Cons it its)
  show ?case
    using handleTimeout_rejected [of s env it "queuedAt it + REQUEST_TIMEOUT"]
      Cons [of "handleTimeout env it (queuedAt it + REQUEST_TIMEOUT) s"]
    by auto
qed

lemma fire_all_queue:
  "distinct (map ident (queue s)) \<Longrightarrow>
   queue (fire_all env its s) = filter (\<lambda>x. ident x \<notin> ident ` set its) (queue s)"
proof (induction its arbitrary: s)
  case Nil
  show ?case by simp
next
  case (Cons it its)
  let ?s1 = "handleTimeout env it (queuedAt it + REQUEST_TIMEOUT) s"
  have q1: "queue ?s1 = filter (\<lambda>x. ident x \<noteq> ident it) (queue s)"
    using Cons.prems by (rule handleTimeout_queue)
  have d1: "distinct (map ident (queue ?s1))"
    unfolding q1 using Cons.prems by (rule distinct_map_filter)
  have "queue (fire_all env its ?s1)
      = filter (\<lambda>x. ident x \<notin> ident ` set its) (queue ?s1)"
    using d1 by (rule Cons.IH)
  then show ?case by (simp add: q1 conj_commute)
qed

lemma fire_all_rejects:
  "distinct (map ident (queue s)) \<Longrightarrow> distinct (map ident its) \<Longrightarrow>
   \<forall>x \<in> set its. ident x \<in> ident ` set (queue s) \<Longrightarrow> it \<in> set its \<Longrightarrow>
   \<lparr>rej_ident = ident it, rej_error = timeout_error,
     rej_time = queuedAt it + REQUEST_TIMEOUT\<rparr> \<in> set (rejected (fire_all env its s))"
proof (induction its arbitrary: s)
  case Nil
  then show ?case by simp
next
  case (Cons a its)
  let ?s1 = "handleTimeout env a (queuedAt a + REQUEST_TIMEOUT) s"
  show ?case
  proof (cases "it = a")
    case True
    have "ident a \<in> ident ` set (queue s)" using Cons.prems(3) by simp
    then have "\<lparr>rej_ident = ident a, rej_error = timeout_error,
        rej_time = queuedAt a + REQUEST_TIMEOUT\<rparr> \<in> set (rejected ?s1)"
      by (rule handleTimeout_rejects)
    then show ?thesis
      using fire_all_rejected [of ?s1 env its] True by auto
  next
    case False
    then have m: "it \<in> set its" using Cons.prems(4) by simp
    have q1: "queue ?s1 = filter (\<lambda>x. ident x \<noteq> ident a) (queue s)"
      using Cons.prems(1) by (rule handleTimeout_queue)
    have d1: "distinct (map ident (queue ?s1))"
      unfolding q1 using Cons.prems(1) by (rule distinct_map_filter)
    have d2: "distinct (map ident its)" using Cons.prems(2) by simp
    have na: "\<forall>x \<in> set its. ident x \<noteq> ident a"
      using Cons.prems(2) by (auto simp add: image_iff)
    have sub: "\<forall>x \<in> set its. ident x \<in> ident ` set (queue ?s1)"
    proof
      fix x assume x: "x \<in> set its"
      then have "ident x \<in> ident ` set (queue s)" using Cons.prems(3) by simp
      then obtain y where y: "y \<in> set (queue s)" "ident y = ident x"
        by (auto simp add: image_iff)
      then have "y \<in> set (queue ?s1)" using na x by (simp add: q1)
      then have "ident y \<in> ident ` set (queue ?s1)" by (rule imageI)
      then show "ident x \<in> ident ` set (queue ?s1)" using y(2) by simp
    qed
    show ?thesis using Cons.IH [OF d1 d2 sub m] by simp
  qed
qed

lemma fire_timers_due:
  assumes "distinct (map ident (queue s))" and "it \<in> set (queue s)"
    and "timer_armed it" and "queuedAt it + REQUEST_TIMEOUT \<le> T"
  shows "ident it \<notin> ident ` set (queue (fire_timers env T s))"
    and "\<lparr>rej_ident = ident it, rej_error = timeout_error,
           rej_time = queuedAt it + REQUEST_TIMEOUT\<rparr> \<in> set (rejected (fire_timers env T s))"
proof -
  have m: "it \<in> set (due T s)" using assms(2,3,4) by (simp add: due_def)
  have q: "queue (fire_timers env T s)
      = filter (\<lambda>x. ident x \<notin> ident ` set (due T s)) (queue s)"
    unfolding fire_timers_def using assms(1) by (rule fire_all_queue)
  have "ident it \<in> ident ` set (due T s)" using m by (rule imageI)
  then show "ident it \<notin> ident ` set (queue (fire_timers env T s))"
    unfolding q by (auto simp add: image_iff)
  have d: "distinct (map ident (due T s))"
    unfolding due_def using assms(1) by (rule distinct_map_filter)
  have sub: "\<forall>x \<in> set (due T s). ident x \<in> ident ` set (queue s)"
    by (auto simp add: due_def)
  show "\<lparr>rej_ident = ident it, rej_error = timeout_error,
           rej_time = queuedAt it + REQUEST_TIMEOUT\<rparr> \<in> set (rejected (fire_timers env T s))"
    unfolding fire_timers_def using assms(1) d sub m by (rule fire_all_rejects)
qed


text \<open>
  Claim C5, as the code has it. When the timer of a request fires, that is, when the request
  is still in the queue with its timer pending once \<^verbatim>\<open>REQUEST_TIMEOUT\<close> (30 s) has passed
  since it was enqueued, the request is removed from the queue and rejected, at its deadline,
  with \<^verbatim>\<open>RateLimitError('Request timed out')\<close>. And at every moment of a run, a request
  rejected by its timeout is neither in the queue nor among the admitted requests: it was not
  admitted before and is never admitted afterwards.
\<close>

theorem C5_timeout_rejects:
  "(distinct (map ident (queue s)) \<and> it \<in> set (queue s) \<and> timer_armed it
      \<and> queuedAt it + REQUEST_TIMEOUT \<le> T \<longrightarrow>
      ident it \<notin> ident ` set (queue (fire_timers env T s))
      \<and> \<lparr>rej_ident = ident it, rej_error = RateLimitError ''Request timed out'' (Some 408),
           rej_time = queuedAt it + REQUEST_TIMEOUT\<rparr> \<in> set (rejected (fire_timers env T s)))
   \<and> (\<forall>r \<in> set (rejected (run n k env' (new_limiter now cs))).
         rej_error r = RateLimitError ''Request timed out'' (Some 408) \<longrightarrow>
         rej_ident r \<notin> ident ` set (queue (run n k env' (new_limiter now cs)))
         \<and> rej_ident r \<notin> adm_ident ` set (admitted (run n k env' (new_limiter now cs))))"
proof -
  have "wf_limiter (run n k env' (new_limiter now cs))"
    using new_limiter_wf by (rule run_wf)
  then have "settled (run n k env' (new_limiter now cs))" by (simp add: wf_limiter_def)
  then have b: "\<forall>r \<in> set (rejected (run n k env' (new_limiter now cs))).
         rej_error r = timeout_error \<longrightarrow>
         rej_ident r \<notin> ident ` set (queue (run n k env' (new_limiter now cs)))
         \<and> rej_ident r \<notin> adm_ident ` set (admitted (run n k env' (new_limiter now cs)))"
    by (simp add: settled_def)
  show ?thesis
    using fire_timers_due [of s it T env] b by (simp add: timeout_error_def)
qed

text \<open>
  A request made at 10 ms and still queued with its timer pending at 30010 ms is rejected
  then.
\<close>

theorem C5_timeout_rejects_witness:
  "distinct (map ident (queue (enqueue ''b'' (new_limiter 10 []))))
   \<and> \<lparr>ident = 0, repoName = ''b'', queuedAt = 10, retryCount = 0, timer_armed = True\<rparr>
        \<in> set (queue (enqueue ''b'' (new_limiter 10 [])))
   \<and> (10::int) + REQUEST_TIMEOUT \<le> 30010
   \<and> \<lparr>rej_ident = 0, rej_error = RateLimitError ''Request timed out'' (Some 408),
        rej_time = 30010\<rparr>
        \<in> set (rejected (fire_timers calm 30010 (enqueue ''b'' (new_limiter 10 []))))"
proof -
  let ?it = "\<lparr>ident = 0, repoName = ''b'', queuedAt = 10, retryCount = 0, timer_armed = True\<rparr>"
  let ?s = "enqueue ''b'' (new_limiter 10 [])"
  have q: "queue ?s = [?it]" by (simp add: enqueue_def new_limiter_def)
  have h: "distinct (map ident (queue ?s)) \<and> ?it \<in> set (queue ?s) \<and> timer_armed ?it
      \<and> queuedAt ?it + REQUEST_TIMEOUT \<le> 30010"
    by (simp add: q REQUEST_TIMEOUT_def)
  have "\<lparr>rej_ident = ident ?it, rej_error = RateLimitError ''Request timed out'' (Some 408),
           rej_time = queuedAt ?it + REQUEST_TIMEOUT\<rparr>
          \<in> set (rejected (fire_timers calm 30010 ?s))"
    using C5_timeout_rejects [of ?s ?it 30010 calm 0 0 calm 0 "[]"] h by (elim conjE impE) simp_all
  then show ?thesis using h by (simp add: REQUEST_TIMEOUT_def)
qed

text \<open>
  The claim as stated fails on \<open>starved_run\<close>: the request made at 10 ms is taken from the
  queue at 1100 ms, its timer is cancelled, the write fails and the request is re-queued
  without a timer; with no budget left it is still waiting when its 30 seconds end at
  30010 ms, it is never rejected, and it is admitted at 41200 ms.
\<close>

theorem C5_timeout_counterexample:
  "admitted starved_run =
    [\<lparr>adm_ident = 1, adm_retryCount = 1, adm_time = 41200\<rparr>,
     \<lparr>adm_ident = 0, adm_retryCount = 0, adm_time = 0\<rparr>]
   \<and> rejected starved_run = []
   \<and> (10::int) + REQUEST_TIMEOUT < 41200"
  by code_simp


end
